theory Spec2Isabelle
  imports Main "HOL-Library.Word" "HOL-Library.AList" "HOL-Library.Sublist"
begin

unbundle bit_operations_syntax

section \<open>Python strings\<close>

text \<open>
  A Python \<open>str\<close> is modelled as a \<^typ>\<open>string\<close>: a list of code points, each below 256
  (the range of \<^typ>\<open>char\<close>). Indices returned by \<open>find\<close> and \<open>rfind\<close> are Python
  integers (\<open>-1\<close> for "not found"), and slices with an integer bound follow Python's rule
  for negative bounds.
\<close>

definition startswith :: "string \<Rightarrow> string \<Rightarrow> bool" where
  "startswith s p = (take (length p) s = p)"

definition endswith :: "string \<Rightarrow> string \<Rightarrow> bool" where
  "endswith s p = (length p \<le> length s \<and> drop (length s - length p) s = p)"

text \<open>\<open>s.find(p)\<close>: the lowest index at which \<open>p\<close> occurs in \<open>s\<close>.\<close>

fun find_opt :: "string \<Rightarrow> string \<Rightarrow> nat option" where
  "find_opt p [] = (if p = [] then Some 0 else None)"
| "find_opt p (c # cs) =
     (if startswith (c # cs) p then Some 0 else map_option Suc (find_opt p cs))"

definition py_find :: "string \<Rightarrow> string \<Rightarrow> int" where
  "py_find s p = (case find_opt p s of None \<Rightarrow> - 1 | Some i \<Rightarrow> int i)"

text \<open>\<open>s.rfind(p)\<close>: the highest index at which \<open>p\<close> occurs in \<open>s\<close>.\<close>

fun rfind_opt :: "string \<Rightarrow> string \<Rightarrow> nat option" where
  "rfind_opt p [] = (if p = [] then Some 0 else None)"
| "rfind_opt p (c # cs) =
     (case rfind_opt p cs of
        Some i \<Rightarrow> Some (Suc i)
      | None \<Rightarrow> if startswith (c # cs) p then Some 0 else None)"

definition py_rfind :: "string \<Rightarrow> string \<Rightarrow> int" where
  "py_rfind s p = (case rfind_opt p s of None \<Rightarrow> - 1 | Some i \<Rightarrow> int i)"

text \<open>\<open>s[:i]\<close> for a Python integer \<open>i\<close>: a negative bound counts from the end.\<close>

definition slice_to :: "string \<Rightarrow> int \<Rightarrow> string" where
  "slice_to s i = (if i < 0 then take (length s - nat (- i)) s else take (nat i) s)"

text \<open>\<open>s[b:e]\<close> for non-negative \<open>b\<close> and \<open>e\<close>; empty when \<open>e \<le> b\<close>.\<close>

definition slice :: "string \<Rightarrow> nat \<Rightarrow> nat \<Rightarrow> string" where
  "slice s b e = take (e - b) (drop b s)"

text \<open>
  \<open>s.replace(old, new)\<close>: the non-overlapping occurrences of \<open>old\<close>, leftmost first, are
  replaced; an empty \<open>old\<close> matches before every character and at the end.
\<close>

function py_replace :: "string \<Rightarrow> string \<Rightarrow> string \<Rightarrow> string" where
  "py_replace old new s =
     (if old = [] then new @ concat (map (\<lambda>c. c # new) s)
      else if s = [] then []
      else if startswith s old then new @ py_replace old new (drop (length old) s)
      else hd s # py_replace old new (tl s))"
  by pat_completeness auto
termination
  by (relation "measure (\<lambda>(old, new, s). length s)") auto

declare py_replace.simps [simp del]

text \<open>\<open>s.split(c)\<close> for a one-character separator.\<close>

fun split_on :: "char \<Rightarrow> string \<Rightarrow> string list" where
  "split_on c [] = [[]]"
| "split_on c (x # xs) =
     (if x = c then [] # split_on c xs
      else (case split_on c xs of [] \<Rightarrow> [[x]] | w # ws \<Rightarrow> (x # w) # ws))"

text \<open>
  \<open>str.isspace\<close> on the code points below 256, and \<open>s.strip()\<close>, \<open>s.rstrip('/')\<close>.
\<close>

definition is_space :: "char \<Rightarrow> bool" where
  "is_space c = ((of_char c :: nat) \<in> {9, 10, 11, 12, 13, 28, 29, 30, 31, 32, 133, 160})"

definition strip :: "string \<Rightarrow> string" where
  "strip s = rev (dropWhile is_space (rev (dropWhile is_space s)))"

definition rstrip_slash :: "string \<Rightarrow> string" where
  "rstrip_slash s = rev (dropWhile (\<lambda>c. c = CHR ''/'') (rev s))"

text \<open>ASCII lower-casing, as the regular-expression flag \<open>re.IGNORECASE\<close> applies it to
  the letters of \<open>https\<close> on code points below 256.\<close>

definition to_lower :: "char \<Rightarrow> char" where
  "to_lower c = (let n = (of_char c :: nat) in if 65 \<le> n \<and> n \<le> 90 then char_of (n + 32) else c)"

section \<open>SHA-1 (\<open>hashlib.sha1\<close>) and UTF-8\<close>

text \<open>
  \<open>sha1(u.encode('UTF-8')).hexdigest()\<close>: the standard hash function (FIPS 180-4) on the
  UTF-8 bytes of the string, rendered as forty lower-case hexadecimal digits.
\<close>

type_synonym byte = "8 word"
type_synonym u32 = "32 word"

definition encode_utf8 :: "string \<Rightarrow> byte list" where
  "encode_utf8 s = concat (map (\<lambda>c. let n = (of_char c :: nat)
      in if n < 128 then [of_nat n] else [of_nat (192 + n div 64), of_nat (128 + n mod 64)]) s)"

definition rotl :: "nat \<Rightarrow> u32 \<Rightarrow> u32" where
  "rotl n w = push_bit n w OR drop_bit (32 - n) w"

definition be64 :: "64 word \<Rightarrow> byte list" where
  "be64 n = map (\<lambda>i. ucast (drop_bit (8 * i) n)) [7, 6, 5, 4, 3, 2, 1, 0]"

definition sha1_pad :: "byte list \<Rightarrow> byte list" where
  "sha1_pad m =
     m @ [0x80] @ replicate ((119 - length m mod 64) mod 64) 0 @ be64 (8 * of_nat (length m))"

fun words_of :: "byte list \<Rightarrow> u32 list" where
  "words_of (a # b # c # d # bs) =
     (push_bit 24 (ucast a) OR push_bit 16 (ucast b) OR push_bit 8 (ucast c) OR ucast d)
       # words_of bs"
| "words_of _ = []"

function chunk :: "nat \<Rightarrow> 'a list \<Rightarrow> 'a list list" where
  "chunk n xs = (if n = 0 \<or> xs = [] then [] else take n xs # chunk n (drop n xs))"
  by pat_completeness auto
termination
  by (relation "measure (\<lambda>(n, xs). length xs)") auto

declare chunk.simps [simp del]

fun extend :: "nat \<Rightarrow> u32 list \<Rightarrow> u32 list" where
  "extend 0 ws = ws"
| "extend (Suc k) ws =
     (let t = length ws
      in extend k
           (ws @ [rotl 1 (ws ! (t - 3) XOR ws ! (t - 8) XOR ws ! (t - 14) XOR ws ! (t - 16))]))"

definition sha1_f :: "nat \<Rightarrow> u32 \<Rightarrow> u32 \<Rightarrow> u32 \<Rightarrow> u32" where
  "sha1_f t b c d =
     (if t < 20 then (b AND c) OR (NOT b AND d)
      else if t < 40 then b XOR c XOR d
      else if t < 60 then (b AND c) OR (b AND d) OR (c AND d)
      else b XOR c XOR d)"

definition sha1_k :: "nat \<Rightarrow> u32" where
  "sha1_k t = (if t < 20 then 0x5A827999 else if t < 40 then 0x6ED9EBA1
               else if t < 60 then 0x8F1BBCDC else 0xCA62C1D6)"

type_synonym sha1_state = "u32 \<times> u32 \<times> u32 \<times> u32 \<times> u32"

fun rounds :: "nat \<Rightarrow> u32 list \<Rightarrow> sha1_state \<Rightarrow> sha1_state" where
  "rounds t [] st = st"
| "rounds t (w # ws) (a, b, c, d, e) =
     rounds (Suc t) ws (rotl 5 a + sha1_f t b c d + e + sha1_k t + w, a, rotl 30 b, c, d)"

fun compress :: "sha1_state \<Rightarrow> u32 list \<Rightarrow> sha1_state" where
  "compress (h0, h1, h2, h3, h4) block =
     (case rounds 0 (extend 64 block) (h0, h1, h2, h3, h4) of
        (a, b, c, d, e) \<Rightarrow> (h0 + a, h1 + b, h2 + c, h3 + d, h4 + e))"

definition sha1 :: "byte list \<Rightarrow> sha1_state" where
  "sha1 m = foldl compress (0x67452301, 0xEFCDAB89, 0x98BADCFE, 0x10325476, 0xC3D2E1F0)
              (chunk 16 (words_of (sha1_pad m)))"

definition hex_digit :: "nat \<Rightarrow> char" where
  "hex_digit n = ''0123456789abcdef'' ! (n mod 16)"

definition hex32 :: "u32 \<Rightarrow> string" where
  "hex32 w = map (\<lambda>i. hex_digit (unat (drop_bit (4 * i) w AND 15))) [7, 6, 5, 4, 3, 2, 1, 0]"

fun hexdigest :: "sha1_state \<Rightarrow> string" where
  "hexdigest (h0, h1, h2, h3, h4) = hex32 h0 @ hex32 h1 @ hex32 h2 @ hex32 h3 @ hex32 h4"

definition sha1_hex :: "string \<Rightarrow> string" where
  "sha1_hex u = hexdigest (sha1 (encode_utf8 u))"

section \<open>\<open>pathlib\<close>: the suffix of a path\<close>

text \<open>
  \<open>Path(u).suffix\<close> on a POSIX system (Python 3.8 to 3.13): the path is split at \<open>/\<close>,
  empty and \<open>.\<close> components are dropped, the name is the last component, and the suffix
  is the part of the name from its last dot, unless that dot is the first or the last
  character of the name.
\<close>

definition path_name :: "string \<Rightarrow> string" where
  "path_name u =
     (case rev (filter (\<lambda>x. x \<noteq> [] \<and> x \<noteq> ''.'') (split_on CHR ''/'' u)) of
        [] \<Rightarrow> []
      | n # _ \<Rightarrow> n)"

definition path_suffix :: "string \<Rightarrow> string" where
  "path_suffix u =
     (let name = path_name u; i = py_rfind name ''.''
      in if 0 < i \<and> i < int (length name) - 1 then drop (nat i) name else [])"

section \<open>The program\<close>

datatype error = ValueError | UnboundLocalError | FileNotFoundError | ConnectionError

definition PLACEHOLDER :: string where
  "PLACEHOLDER = ''__mystery://placeholder__''"

subsection \<open>\<open>url_relative\<close>\<close>

function url_relative_loop :: "string \<Rightarrow> string \<Rightarrow> string" where
  "url_relative_loop u r =
     (if startswith r ''../''
      then url_relative_loop (slice_to u (py_rfind u ''/'')) (drop 3 r)
      else u @ ''/'' @ r)"
  by pat_completeness auto
termination
proof (relation "measure (\<lambda>(u, r). length r)")
  fix u r :: string
  assume "startswith r ''../''"
  then have "r \<noteq> []"
    by (auto simp: startswith_def)
  then show "((slice_to u (py_rfind u ''/''), drop 3 r), (u, r)) \<in> measure (\<lambda>(u, r). length r)"
    by simp
qed simp

declare url_relative_loop.simps [simp del]

definition url_relative :: "string \<Rightarrow> string \<Rightarrow> string" where
  "url_relative u r = url_relative_loop (slice_to u (py_rfind u ''/'')) r"

subsection \<open>\<open>url_to_name\<close>\<close>

definition well_known :: "string \<Rightarrow> bool" where
  "well_known u =
     (endswith u ''leaflet.css'' \<or> endswith u ''marker-icon.png''
      \<or> endswith u ''marker-icon-2x.png'' \<or> endswith u ''marker-shadow.png'')"

text \<open>
  The source binds \<open>ix\<close> with \<open>(ix:=suffix.find('#')>=0)\<close>: the comparison binds tighter than
  \<open>:=\<close>, so \<open>ix\<close> is the truth value of the comparison, and \<open>suffix[:ix]\<close> slices with
  \<open>True\<close>, that is with 1.
\<close>

definition url_to_name :: "string \<Rightarrow> error + string" where
  "url_to_name u0 =
     (let u = (if startswith u0 ''//'' then ''https:'' @ u0 else u0)
      in if \<not> startswith u ''https://'' then Inl ValueError
         else if well_known u then
           (case rfind_opt ''/'' u of
              None \<Rightarrow> Inl ValueError
            | Some i \<Rightarrow> Inr (drop (i + 1) u))
         else
           (let name = sha1_hex u;
                suffix = path_suffix u;
                ix = (py_find suffix ''#'' \<ge> 0);
                suffix = (if ix then slice_to suffix (of_bool ix) else suffix)
            in Inr (name @ suffix)))"

subsection \<open>Files, the network and the state of a run\<close>

text \<open>
  A file is named by its path: a source file of the folium tree (a path that
  \<open>folium_p.glob\<close> yields) or a file \<open>local_dir / name\<close> of the download directory. The
  text of a file is a \<^typ>\<open>string\<close>; downloaded bytes and the text read back from them are
  the same string. The state of a run is the \<open>url_map\<close> of the \<open>UrlModifier\<close>, the file
  system, and the trace of what the run did to the outside: each CSS entry it started
  to scan (the line \<open>CSS: ...\<close> of the output, followed by the opening of the file), each
  download and each file written. The other progress output is not modelled. An
  exception ends the run; the state it leaves behind is kept beside the error.
\<close>

datatype path = Src string | Dir string

datatype event = Scan string string | Fetch string string | Write path

record state =
  url_map :: "(string \<times> string) list"
  files :: "path \<rightharpoonup> string"
  events :: "event list"

text \<open>A \<open>for\<close> loop whose body may raise: the first error ends the loop.\<close>

fun for_each :: "('a \<Rightarrow> 's \<Rightarrow> error option \<times> 's) \<Rightarrow> 'a list \<Rightarrow> 's \<Rightarrow> error option \<times> 's" where
  "for_each f [] s = (None, s)"
| "for_each f (x # xs) s =
     (case f x s of
        (Some err, s') \<Rightarrow> (Some err, s')
      | (None, s') \<Rightarrow> for_each f xs s')"

text \<open>
  Reading a file in text mode translates \<open>\r\n\<close> and \<open>\r\<close> to \<open>\n\<close> (universal newlines);
  \<open>readlines\<close> then cuts the text after each \<open>\n\<close>.
\<close>

fun univ_nl :: "string \<Rightarrow> string" where
  "univ_nl [] = []"
| "univ_nl [c] = (if c = CHR 0x0D then [CHR 0x0A] else [c])"
| "univ_nl (c # d # s) =
     (if c = CHR 0x0D \<and> d = CHR 0x0A then CHR 0x0A # univ_nl s
      else if c = CHR 0x0D then CHR 0x0A # univ_nl (d # s)
      else c # univ_nl (d # s))"

fun cut_lines :: "string \<Rightarrow> string list" where
  "cut_lines [] = []"
| "cut_lines (c # cs) =
     (if c = CHR 0x0A then [c] # cut_lines cs
      else (case cut_lines cs of [] \<Rightarrow> [[c]] | l # ls \<Rightarrow> (c # l) # ls))"

definition readlines :: "string \<Rightarrow> string list" where
  "readlines content = cut_lines (univ_nl content)"

subsection \<open>The two regular expressions\<close>

text \<open>
  \<open>URL_RE\<close> is \<open>['"](https://[^'"]+)['"]\<close> with \<open>re.IGNORECASE\<close>. At a given position
  it matches a quote, the letters of \<open>https://\<close> in either case, the longest run of
  characters that are not quotes, which must not be empty, and a quote. (A shorter run
  would be followed by a character that is not a quote, so backtracking finds nothing
  else.) The result is the length of the match.
\<close>

definition is_quote :: "char \<Rightarrow> bool" where
  "is_quote c = (c = CHR 0x22 \<or> c = CHR 0x27)"

definition URL_RE_match :: "string \<Rightarrow> nat option" where
  "URL_RE_match s =
     (case s of
        [] \<Rightarrow> None
      | q # rest \<Rightarrow>
          if is_quote q \<and> map to_lower (take 8 rest) = ''https://'' then
            (let run = takeWhile (\<lambda>c. \<not> is_quote c) (drop 8 rest)
             in if run \<noteq> [] \<and> 9 + length run < length s then Some (10 + length run) else None)
          else None)"

text \<open>\<open>URL_RE.search(line)\<close>: the span \<open>(b, e)\<close> of the leftmost match; the first
  argument is the index at which the remaining text starts.\<close>

fun URL_RE_search_from :: "nat \<Rightarrow> string \<Rightarrow> (nat \<times> nat) option" where
  "URL_RE_search_from b [] = None"
| "URL_RE_search_from b (c # cs) =
     (case URL_RE_match (c # cs) of
        Some n \<Rightarrow> Some (b, b + n)
      | None \<Rightarrow> URL_RE_search_from (Suc b) cs)"

definition URL_RE_search :: "string \<Rightarrow> (nat \<times> nat) option" where
  "URL_RE_search line = URL_RE_search_from 0 line"

text \<open>
  \<open>CSS_RE\<close> is \<open>url\(([^)]+)\)\<close>: the text \<open>url(\<close>, the longest run of characters other
  than \<open>)\<close>, not empty, and \<open>)\<close>. The result is the length of the run (group 1).
\<close>

definition CSS_RE_match :: "string \<Rightarrow> nat option" where
  "CSS_RE_match s =
     (if startswith s ''url('' then
        (let run = takeWhile (\<lambda>c. c \<noteq> CHR 0x29) (drop 4 s)
         in if run \<noteq> [] \<and> 4 + length run < length s then Some (length run) else None)
      else None)"

text \<open>\<open>[m.span(1) for m in CSS_RE.finditer(text)]\<close>: the spans of group 1 of the
  non-overlapping matches, from left to right.\<close>

function CSS_RE_finditer_from :: "nat \<Rightarrow> string \<Rightarrow> (nat \<times> nat) list" where
  "CSS_RE_finditer_from b s =
     (if s = [] then []
      else (case CSS_RE_match s of
              Some n \<Rightarrow> (b + 4, b + 4 + n) # CSS_RE_finditer_from (b + n + 5) (drop (n + 5) s)
            | None \<Rightarrow> CSS_RE_finditer_from (Suc b) (tl s)))"
  by pat_completeness auto
termination
  by (relation "measure (\<lambda>(b, s). length s)") auto

declare CSS_RE_finditer_from.simps [simp del]

definition CSS_RE_finditer :: "string \<Rightarrow> (nat \<times> nat) list" where
  "CSS_RE_finditer text = CSS_RE_finditer_from 0 text"

subsection \<open>\<open>UrlModifier.local_https\<close> and \<open>UrlModifier.process_py\<close>\<close>

definition local_https :: "string \<Rightarrow> state \<Rightarrow> (error + string) \<times> state" where
  "local_https line s =
     (case URL_RE_search line of
        None \<Rightarrow> (Inr line, s)
      | Some (b, e) \<Rightarrow>
          (let sline = strip line
           in if startswith sline ''>>>'' \<or> startswith sline ''...'' then (Inr line, s)
              else
                (let old_u = slice line (b + 1) (e - 1)
                 in case url_to_name old_u of
                      Inl err \<Rightarrow> (Inl err, s)
                    | Inr name \<Rightarrow>
                        (Inr (take (b + 1) line @ PLACEHOLDER @ ''/'' @ name @ drop (e - 1) line),
                         s\<lparr>url_map := AList.update old_u name (url_map s)\<rparr>))))"

text \<open>The list comprehension \<open>[self.local_https(line) for line in old_lines]\<close>.\<close>

fun local_https_lines :: "string list \<Rightarrow> state \<Rightarrow> (error + string list) \<times> state" where
  "local_https_lines [] s = (Inr [], s)"
| "local_https_lines (line # rest) s =
     (case local_https line s of
        (Inl err, s') \<Rightarrow> (Inl err, s')
      | (Inr line', s') \<Rightarrow>
          (case local_https_lines rest s' of
             (Inl err, s'') \<Rightarrow> (Inl err, s'')
           | (Inr rest', s'') \<Rightarrow> (Inr (line' # rest'), s'')))"

text \<open>The body of the loop of \<open>process_py\<close>, for one path \<open>p\<close> of the glob.\<close>

definition process_py_file :: "path \<Rightarrow> state \<Rightarrow> error option \<times> state" where
  "process_py_file p s =
     (case files s p of
        None \<Rightarrow> (Some FileNotFoundError, s)
      | Some content \<Rightarrow>
          (let old_lines = readlines content
           in case local_https_lines old_lines s of
                (Inl err, s') \<Rightarrow> (Some err, s')
              | (Inr upd_lines, s') \<Rightarrow>
                  if upd_lines \<noteq> old_lines
                  then (None, s'\<lparr>files := (files s')(p \<mapsto> concat upd_lines),
                                  events := events s' @ [Write p]\<rparr>)
                  else (None, s')))"

text \<open>\<open>process_py\<close>; \<open>ps\<close> are the paths that \<open>folium_p.glob('**/*.py')\<close> yields.\<close>

definition process_py :: "path list \<Rightarrow> state \<Rightarrow> error option \<times> state" where
  "process_py ps s = for_each process_py_file ps s"

subsection \<open>\<open>download_file\<close> and \<open>UrlModifier.download_from_py\<close>\<close>

text \<open>\<open>web u\<close> is the content that \<open>requests.get(u)\<close> returns, \<open>None\<close> when the request
  raises.\<close>

definition download_file :: "(string \<rightharpoonup> string) \<Rightarrow> string \<Rightarrow> string \<Rightarrow> state \<Rightarrow> error option \<times> state" where
  "download_file web u name s =
     (case web u of
        None \<Rightarrow> (Some ConnectionError, s)
      | Some content \<Rightarrow>
          (None, s\<lparr>files := (files s)(Dir name \<mapsto> content),
                    events := events s @ [Fetch u name]\<rparr>))"

definition download_from_py :: "(string \<rightharpoonup> string) \<Rightarrow> state \<Rightarrow> error option \<times> state" where
  "download_from_py web s =
     for_each (\<lambda>(old_u, name). download_file web old_u name) (url_map s) s"

subsection \<open>\<open>UrlModifier.download_from_css\<close>\<close>

text \<open>
  The local variables of \<open>download_from_css\<close> that the loop over the matches reads and
  writes. \<open>name2\<close> is a local of the whole method: it is unbound until its first
  assignment and keeps its value from one match to the next and from one CSS file to
  the next.
\<close>

record frame =
  text' :: string
  matched :: bool
  name2 :: "string option"

text \<open>The two iterations over \<open>also_name\<close>, for one \<open>also_name\<close>.\<close>

definition fetch_also :: "(string \<rightharpoonup> string) \<Rightarrow> string \<Rightarrow> string \<Rightarrow> state \<Rightarrow> error option \<times> state" where
  "fetch_also web u2 also_name s =
     (let also_u = py_replace ''marker-icon.png'' also_name u2
      in case download_file web also_u also_name s of
           (Some err, s') \<Rightarrow> (Some err, s')
         | (None, s') \<Rightarrow> (None, s'\<lparr>url_map := AList.update also_u also_name (url_map s')\<rparr>))"

text \<open>The statement \<open>if u2 not in self.url_map: ...\<close>.\<close>

definition register :: "(string \<rightharpoonup> string) \<Rightarrow> string \<Rightarrow> frame \<times> state \<Rightarrow> error option \<times> frame \<times> state" where
  "register web u2 fs =
     (case fs of (fr, s) \<Rightarrow>
        if map_of (url_map s) u2 \<noteq> None then (None, fr, s)
        else
          (case url_to_name u2 of
             Inl err \<Rightarrow> (Some err, fr, s)
           | Inr n2 \<Rightarrow>
               (let fr = fr\<lparr>name2 := Some n2\<rparr>
                in case download_file web u2 n2 s of
                     (Some err, s') \<Rightarrow> (Some err, fr, s')
                   | (None, s') \<Rightarrow>
                       (let s' = s'\<lparr>url_map := AList.update u2 n2 (url_map s')\<rparr>
                        in if n2 = ''marker-icon.png''
                           then (case for_each (fetch_also web u2)
                                        [''marker-icon-2x.png'', ''marker-shadow.png''] s' of
                                   (r, s'') \<Rightarrow> (r, fr, s''))
                           else (None, fr, s')))))"

text \<open>The skip test \<open>u2.startswith(('data:', '#', '%'))\<close>.\<close>

definition skipped :: "string \<Rightarrow> bool" where
  "skipped u2 = (startswith u2 ''data:'' \<or> startswith u2 ''#'' \<or> startswith u2 ''%'')"

text \<open>
  The first statements of the body of the loop over the matches: from the span \<open>(b, e)\<close>
  of group 1 of a match they compute the span without one layer of quotes and the
  reference \<open>u2\<close> without its \<open>?\<close> suffix.
\<close>

definition css_reference :: "string \<Rightarrow> nat \<times> nat \<Rightarrow> nat \<times> nat \<times> string" where
  "css_reference txt span =
     (case span of (b, e) \<Rightarrow>
        (let u2 = slice txt b e;
             (b, e) = (if startswith u2 [CHR 0x22] \<or> startswith u2 [CHR 0x27]
                       then (b + 1, e - 1) else (b, e));
             u2 = slice txt b e;
             ix = py_find u2 ''?'';
             u2 = (if ix \<ge> 0 then slice_to u2 ix else u2)
         in (b, e, u2)))"

text \<open>
  The body of the loop over the matches, for the span of group 1 of one match of the
  CSS file downloaded from \<open>old_u\<close>.
\<close>

definition css_match :: "(string \<rightharpoonup> string) \<Rightarrow> string \<Rightarrow> nat \<times> nat \<Rightarrow> frame \<times> state \<Rightarrow> error option \<times> frame \<times> state" where
  "css_match web old_u span fs =
     (case fs of (fr, s) \<Rightarrow> case css_reference (text' fr) span of (b, e, u2) \<Rightarrow>
        if skipped u2 then (None, fr, s)
        else
          (let u2 = (if startswith u2 ''//'' then ''https:'' @ u2 else url_relative old_u u2)
           in case register web u2 (fr, s) of
                (Some err, fr', s') \<Rightarrow> (Some err, fr', s')
              | (None, fr', s') \<Rightarrow>
                  (case name2 fr' of
                     None \<Rightarrow> (Some UnboundLocalError, fr', s')
                   | Some n2 \<Rightarrow>
                       (None,
                        fr'\<lparr>text' := take b (text' fr') @ PLACEHOLDER @ ''/'' @ n2
                                      @ drop e (text' fr'),
                            matched := True\<rparr>,
                        s'))))"

text \<open>
  The body of the outer loop, for one entry \<open>(old_u, name)\<close> of the copy of the
  \<open>url_map\<close>; the state it threads is \<open>name2\<close> and the state of the run.
\<close>

definition css_entry :: "(string \<rightharpoonup> string) \<Rightarrow> string \<times> string \<Rightarrow> string option \<times> state \<Rightarrow> error option \<times> string option \<times> state" where
  "css_entry web entry ns =
     (case entry of (old_u, name) \<Rightarrow> case ns of (n2, s) \<Rightarrow>
        if endswith name ''.css'' then
          (let s = s\<lparr>events := events s @ [Scan old_u name]\<rparr>
           in case files s (Dir name) of
                None \<Rightarrow> (Some FileNotFoundError, n2, s)
              | Some content \<Rightarrow>
                  (let text0 = univ_nl content
                   in case for_each (css_match web old_u) (rev (CSS_RE_finditer text0))
                             (\<lparr>text' = text0, matched = False, name2 = n2\<rparr>, s) of
                        (Some err, fr, s') \<Rightarrow> (Some err, name2 fr, s')
                      | (None, fr, s') \<Rightarrow>
                          if matched fr
                          then (None, name2 fr,
                                s'\<lparr>files := (files s')(Dir name \<mapsto> text' fr),
                                    events := events s' @ [Write (Dir name)]\<rparr>)
                          else (None, name2 fr, s')))
        else (None, n2, s))"

text \<open>\<open>download_from_css\<close>: the loop runs over \<open>dict(self.url_map).items()\<close>, the entries
  of a copy made when the method starts.\<close>

definition download_from_css :: "(string \<rightharpoonup> string) \<Rightarrow> state \<Rightarrow> error option \<times> state" where
  "download_from_css web s =
     (case for_each (css_entry web) (url_map s) (None, s) of (r, n2, s') \<Rightarrow> (r, s'))"

subsection \<open>The subcommands \<open>process\<close> and \<open>replace\<close>\<close>

text \<open>
  \<open>_process\<close>, with both \<open>--folium\<close> and \<open>--dir\<close> given; \<open>ps\<close> are the \<open>.py\<close> files of the
  folium tree. The \<open>url_map\<close> starts empty. (The JSON dump of the map is not modelled.)
\<close>

definition process :: "(string \<rightharpoonup> string) \<Rightarrow> path list \<Rightarrow> state \<Rightarrow> error option \<times> state" where
  "process web ps s =
     (case process_py ps (s\<lparr>url_map := []\<rparr>) of
        (Some err, s1) \<Rightarrow> (Some err, s1)
      | (None, s1) \<Rightarrow>
          (case download_from_py web s1 of
             (Some err, s2) \<Rightarrow> (Some err, s2)
           | (None, s2) \<Rightarrow> download_from_css web s2))"

text \<open>The body of the loop of the inner function \<open>replace\<close> of \<open>_replace\<close>, for one path.\<close>

definition replace_file :: "string \<Rightarrow> path \<Rightarrow> state \<Rightarrow> error option \<times> state" where
  "replace_file url_prefix p s =
     (case files s p of
        None \<Rightarrow> (Some FileNotFoundError, s)
      | Some content \<Rightarrow>
          (let buf = univ_nl content
           in if py_find buf PLACEHOLDER \<ge> 0
              then (None, s\<lparr>files := (files s)(p \<mapsto> py_replace (PLACEHOLDER @ ''/'') url_prefix buf),
                            events := events s @ [Write p]\<rparr>)
              else (None, s)))"

text \<open>\<open>replace(base, pattern, url_prefix)\<close>; \<open>ps\<close> are the paths that
  \<open>base.glob(pattern)\<close> yields.\<close>

definition replace :: "path list \<Rightarrow> string \<Rightarrow> state \<Rightarrow> error option \<times> state" where
  "replace ps url_prefix s = for_each (replace_file url_prefix) ps s"

text \<open>\<open>_replace\<close>: the \<open>.py\<close> files get the URL with one trailing slash, the \<open>.css\<close>
  files the empty prefix.\<close>

definition replace_cmd :: "path list \<Rightarrow> path list \<Rightarrow> string \<Rightarrow> state \<Rightarrow> error option \<times> state" where
  "replace_cmd py_files css_files url s =
     (case replace py_files (rstrip_slash url @ ''/'') s of
        (Some err, s') \<Rightarrow> (Some err, s')
      | (None, s') \<Rightarrow> replace css_files [] s')"

section \<open>The relative URL resolver in the words of its description\<close>

text \<open>
  The description of \<open>url_relative\<close>: the base is cut before its final \<open>/\<close>, each leading
  \<open>../\<close> of the reference removes one more trailing segment of the base, and what is left
  of both is joined with a \<open>/\<close>. Here the base is split into its segments at \<open>/\<close>, the
  last \<open>k + 1\<close> segments are dropped for a reference with \<open>k\<close> leading \<open>../\<close>, and the rest
  is joined again.
\<close>

fun join_on :: "char \<Rightarrow> string list \<Rightarrow> string" where
  "join_on c [] = []"
| "join_on c [w] = w"
| "join_on c (w # v # ws) = w @ c # join_on c (v # ws)"

function leading_ups :: "string \<Rightarrow> nat" where
  "leading_ups r = (if startswith r ''../'' then Suc (leading_ups (drop 3 r)) else 0)"
  by pat_completeness auto
termination
proof (relation "measure length")
  fix r :: string
  assume "startswith r ''../''"
  then have "r \<noteq> []"
    by (auto simp: startswith_def)
  then show "(drop 3 r, r) \<in> measure length"
    by simp
qed simp

declare leading_ups.simps [simp del]

definition segments_resolve :: "string \<Rightarrow> string \<Rightarrow> string" where
  "segments_resolve base ref =
     (let k = leading_ups ref; segs = split_on CHR ''/'' base
      in join_on CHR ''/'' (take (length segs - (k + 1)) segs) @ ''/'' @ drop (3 * k) ref)"

section \<open>Notions used to state the properties\<close>

text \<open>The URL after the first step of \<open>url_to_name\<close>: a protocol-relative URL gets the
  scheme \<open>https:\<close>.\<close>

definition normalized :: "string \<Rightarrow> string" where
  "normalized u = (if startswith u ''//'' then ''https:'' @ u else u)"

text \<open>The text of a URL after its last \<open>/\<close>.\<close>

definition basename :: "string \<Rightarrow> string" where
  "basename u = last (split_on CHR ''/'' u)"

text \<open>\<open>p\<close> occurs in \<open>s\<close>.\<close>

definition occurs_in :: "string \<Rightarrow> string \<Rightarrow> bool" where
  "occurs_in p s = (\<exists>a b. s = a @ p @ b)"

text \<open>The CSS entries that a trace says were scanned, in order.\<close>

fun scanned :: "event list \<Rightarrow> (string \<times> string) list" where
  "scanned [] = []"
| "scanned (Scan u n # es) = (u, n) # scanned es"
| "scanned (Fetch u n # es) = scanned es"
| "scanned (Write p # es) = scanned es"

text \<open>The entries of a \<open>url_map\<close> whose local name ends in \<open>.css\<close>.\<close>

definition css_entries :: "(string \<times> string) list \<Rightarrow> (string \<times> string) list" where
  "css_entries um = filter (\<lambda>(u, n). endswith n ''.css'') um"

text \<open>Every entry of a \<open>url_map\<close> maps a URL to its local name.\<close>

definition url_map_ok :: "(string \<times> string) list \<Rightarrow> bool" where
  "url_map_ok um = list_all (\<lambda>(k, v). url_to_name k = Inr v) um"

text \<open>A line that looks like an interactive transcript, which \<open>local_https\<close> leaves alone.\<close>

definition transcript :: "string \<Rightarrow> bool" where
  "transcript line = (startswith (strip line) ''>>>'' \<or> startswith (strip line) ''...'')"

text \<open>
  The characters that the two rewriters leave directly before and after a reference that
  they write: the scanner a quote, the CSS rewriter a quote or a parenthesis.
\<close>

definition delimiter :: "char \<Rightarrow> bool" where
  "delimiter c = (is_quote c \<or> c = CHR ''('' \<or> c = CHR '')'')"

text \<open>
  The texts that the first pass leaves: text without the placeholder, in which each
  reference that a rewriter wrote stands between two such characters, as the placeholder,
  a \<open>/\<close> and a name; and the prefix followed by the name holds no placeholder either.
\<close>

inductive first_pass_text :: "string \<Rightarrow> string \<Rightarrow> bool" for url_prefix :: string where
  plain: "\<not> occurs_in PLACEHOLDER t \<Longrightarrow> first_pass_text url_prefix t"
| reference:
    "\<not> occurs_in PLACEHOLDER a \<Longrightarrow> delimiter c \<Longrightarrow> delimiter d \<Longrightarrow>
     \<not> occurs_in PLACEHOLDER (url_prefix @ name) \<Longrightarrow> first_pass_text url_prefix b \<Longrightarrow>
     first_pass_text url_prefix (a @ c # PLACEHOLDER @ ''/'' @ name @ d # b)"

section \<open>Facts about the string operations\<close>

lemma startswith_Nil [simp]: "startswith s []"
  by (simp add: startswith_def)

lemma startswith_Cons_Cons: "startswith (x # xs) (y # ys) = (x = y \<and> startswith xs ys)"
  by (auto simp: startswith_def)

lemma startswith_Nil_Cons [simp]: "\<not> startswith [] (y # ys)"
  by (simp add: startswith_def)

lemma startswith_append: "startswith (p @ s) p"
  by (simp add: startswith_def)

lemma startswith_iff: "startswith s p = (\<exists>t. s = p @ t)"
  unfolding startswith_def
  by (metis append_eq_conv_conj append_take_drop_id)

lemma rfind_opt_None_iff: "(rfind_opt [c] s = None) = (c \<notin> set s)"
  by (induction s) (auto simp: startswith_Cons_Cons split: option.splits)

lemma rfind_opt_last: "c \<notin> set b \<Longrightarrow> rfind_opt [c] (a @ c # b) = Some (length a)"
proof (induction a)
  case Nil
  then show ?case
    using rfind_opt_None_iff [of c b] by (simp add: startswith_Cons_Cons)
next
  case (Cons x a)
  then show ?case by simp
qed

lemma split_on_nonempty [simp]: "split_on c s \<noteq> []"
  by (induction s) (auto split: list.splits)

lemma split_on_append: "split_on c (a @ c # b) = split_on c a @ split_on c b"
proof (induction a)
  case Nil
  then show ?case by simp
next
  case (Cons x a)
  then show ?case
    by (cases "split_on c a") (auto split: list.splits)
qed

lemma split_on_notin: "c \<notin> set s \<Longrightarrow> split_on c s = [s]"
  by (induction s) auto

lemma join_on_snoc: "xs \<noteq> [] \<Longrightarrow> join_on c (xs @ [b]) = join_on c xs @ c # b"
  by (induction c xs rule: join_on.induct) auto

lemma join_split: "join_on c (split_on c s) = s"
proof (induction s)
  case Nil
  then show ?case by simp
next
  case (Cons x s)
  then show ?case
  proof (cases "split_on c s")
    case Nil
    then show ?thesis using split_on_nonempty by blast
  next
    case (Cons w ws)
    with Cons.IH show ?thesis
      by (cases ws) auto
  qed
qed

lemma length_split_on: "length (split_on c s) = Suc (length (filter (\<lambda>x. x = c) s))"
  by (induction s) (auto split: list.splits)

lemma length_hex32 [simp]: "length (hex32 w) = 8"
  by (simp add: hex32_def)

lemma length_sha1_hex [simp]: "length (sha1_hex u) = 40"
  by (cases "sha1 (encode_utf8 u)") (simp add: sha1_hex_def)

lemma find_opt_None_iff: "(find_opt [c] s = None) = (c \<notin> set s)"
  by (induction s) (auto simp: startswith_Cons_Cons)

lemma py_find_char_nonneg: "(0 \<le> py_find s [c]) = (c \<in> set s)"
  using find_opt_None_iff [of c s] by (auto simp: py_find_def split: option.splits)

lemma rfind_opt_basename:
  assumes "rfind_opt [c] u = Some i"
  shows "drop (Suc i) u = last (split_on c u)" and "take i u = join_on c (butlast (split_on c u))"
    and "split_on c (take i u) = butlast (split_on c u)"
proof -
  from assms have "c \<in> set u"
    using rfind_opt_None_iff [of c u] by auto
  then obtain a b where u: "u = a @ c # b" and b: "c \<notin> set b"
    using split_list_last by fastforce
  with assms have i: "i = length a"
    by (simp add: rfind_opt_last)
  have s: "split_on c u = split_on c a @ [b]"
    using u b by (simp add: split_on_append split_on_notin)
  show "drop (Suc i) u = last (split_on c u)"
    using u i s by simp
  show "take i u = join_on c (butlast (split_on c u))"
    using u i s by (simp add: join_split)
  show "split_on c (take i u) = butlast (split_on c u)"
    using u i s by simp
qed

lemma startswith_https_slash: "startswith u ''https://'' \<Longrightarrow> CHR ''/'' \<in> set u"
  by (auto simp: startswith_iff)

lemma url_to_name_unfold:
  "url_to_name u =
     (if \<not> startswith (normalized u) ''https://'' then Inl ValueError
      else if well_known (normalized u) then Inr (basename (normalized u))
      else Inr (sha1_hex (normalized u) @
                (if CHR ''#'' \<in> set (path_suffix (normalized u))
                 then take 1 (path_suffix (normalized u)) else path_suffix (normalized u))))"
proof (cases "startswith (normalized u) ''https://''")
  case False
  then show ?thesis by (simp add: url_to_name_def normalized_def)
next
  case True
  then have "rfind_opt ''/'' (normalized u) \<noteq> None"
    using rfind_opt_None_iff [of "CHR ''/''" "normalized u"] startswith_https_slash by blast
  then obtain i where i: "rfind_opt ''/'' (normalized u) = Some i" by blast
  have b: "drop (Suc i) (normalized u) = basename (normalized u)"
    using rfind_opt_basename(1) [OF i] by (simp add: basename_def)
  show ?thesis
    using True i b
    by (simp add: url_to_name_def normalized_def [symmetric] Let_def py_find_char_nonneg slice_to_def)
qed

section \<open>The error check of \<open>url_to_name\<close>\<close>

text \<open>
  C9. \<open>url_to_name\<close> first gives a protocol-relative URL the scheme \<open>https:\<close>; it then
  raises \<open>ValueError\<close> exactly when the normalized URL does not start with \<open>https://\<close>,
  it raises no other error, and an input that starts with \<open>https://\<close> or \<open>//\<close> gets a
  name.
\<close>

theorem url_to_name_raises_iff:
  "(url_to_name u = Inl ValueError) = (\<not> startswith (normalized u) ''https://'')
   \<and> (\<forall>e. url_to_name u = Inl e \<longrightarrow> e = ValueError)
   \<and> url_to_name u = url_to_name (normalized u)
   \<and> (startswith u ''//'' \<longrightarrow> normalized u = ''https:'' @ u)
   \<and> (startswith u ''https://'' \<or> startswith u ''//'' \<longrightarrow> (\<exists>name. url_to_name u = Inr name))"
proof (intro conjI)
  have n: "startswith u ''https://'' \<or> startswith u ''//'' \<Longrightarrow> startswith (normalized u) ''https://''"
    by (auto simp: normalized_def startswith_iff)
  have i: "normalized (normalized u) = normalized u"
    by (auto simp: normalized_def startswith_def)
  show "(url_to_name u = Inl ValueError) = (\<not> startswith (normalized u) ''https://'')"
    by (simp add: url_to_name_unfold)
  show "\<forall>e. url_to_name u = Inl e \<longrightarrow> e = ValueError"
    by (simp add: url_to_name_unfold split: if_splits)
  show "url_to_name u = url_to_name (normalized u)"
    unfolding url_to_name_unfold [of u] url_to_name_unfold [of "normalized u"] i ..
  show "startswith u ''//'' \<longrightarrow> normalized u = ''https:'' @ u"
    by (simp add: normalized_def)
  show "startswith u ''https://'' \<or> startswith u ''//'' \<longrightarrow> (\<exists>name. url_to_name u = Inr name)"
    using n by (auto simp: url_to_name_unfold)
qed

theorem url_to_name_raises_iff_witness:
  "(\<exists>name. url_to_name ''//cdn.example/lib.js'' = Inr name)
   \<and> (\<exists>name. url_to_name ''https://x/marker-icon.png'' = Inr name)
   \<and> url_to_name ''http://cdn.example/lib.js'' = Inl ValueError"
proof (intro conjI)
  have a: "startswith ''//cdn.example/lib.js'' ''//''"
    by (simp add: startswith_def)
  have b: "startswith ''https://x/marker-icon.png'' ''https://''"
    by (simp add: startswith_def)
  have c: "\<not> startswith (normalized ''http://cdn.example/lib.js'') ''https://''"
    by (simp add: normalized_def startswith_def)
  show "\<exists>name. url_to_name ''//cdn.example/lib.js'' = Inr name"
    using url_to_name_raises_iff [of "''//cdn.example/lib.js''"] a by blast
  show "\<exists>name. url_to_name ''https://x/marker-icon.png'' = Inr name"
    using url_to_name_raises_iff [of "''https://x/marker-icon.png''"] b by blast
  show "url_to_name ''http://cdn.example/lib.js'' = Inl ValueError"
    using url_to_name_raises_iff [of "''http://cdn.example/lib.js''"] c by blast
qed

section \<open>The names that \<open>url_to_name\<close> gives\<close>

lemma endswith_append: "endswith (a @ p) p"
  by (simp add: endswith_def)

lemma endswith_iff: "endswith s p = (\<exists>a. s = a @ p)"
proof
  assume "endswith s p"
  then have "s = take (length s - length p) s @ p"
    by (metis append_take_drop_id endswith_def)
  then show "\<exists>a. s = a @ p" ..
next
  assume "\<exists>a. s = a @ p"
  then show "endswith s p" by (auto simp: endswith_append)
qed

lemma endswith_last: "endswith s p \<Longrightarrow> p \<noteq> [] \<Longrightarrow> last s = last p"
  by (auto simp: endswith_iff)

lemma endswith_basename:
  assumes "CHR ''/'' \<in> set v"
  shows "endswith v (basename v)"
proof -
  from assms obtain i where i: "rfind_opt ''/'' v = Some i"
    using rfind_opt_None_iff [of "CHR ''/''" v] by auto
  have "v = take (Suc i) v @ drop (Suc i) v" by simp
  then have "v = take (Suc i) v @ basename v"
    using rfind_opt_basename(1) [OF i] by (simp add: basename_def)
  then show ?thesis
    using endswith_iff by blast
qed

text \<open>
  C3, as the code has it. For a valid URL, \<open>url_to_name\<close> returns the text after the last
  \<open>/\<close> unchanged exactly when the URL text ends with one of the four well-known names
  (the test is on the end of the whole text, so a final segment such as
  \<open>myleaflet.css\<close> passes it too), which is the case whenever the final segment is one of
  the four names; every other valid URL gets the SHA-1 digest followed by a suffix.
\<close>

theorem url_to_name_well_known:
  assumes "startswith (normalized u) ''https://''"
  shows "(well_known (normalized u) \<longrightarrow> url_to_name u = Inr (basename (normalized u)))
         \<and> (\<not> well_known (normalized u) \<longrightarrow>
              (\<exists>sfx. url_to_name u = Inr (sha1_hex (normalized u) @ sfx)))
         \<and> (basename (normalized u) \<in> {''leaflet.css'', ''marker-icon.png'',
               ''marker-icon-2x.png'', ''marker-shadow.png''} \<longrightarrow> well_known (normalized u))"
proof (intro conjI impI)
  assume "well_known (normalized u)"
  with assms show "url_to_name u = Inr (basename (normalized u))"
    by (simp add: url_to_name_unfold)
next
  assume "\<not> well_known (normalized u)"
  with assms show "\<exists>sfx. url_to_name u = Inr (sha1_hex (normalized u) @ sfx)"
    by (simp add: url_to_name_unfold)
next
  assume b: "basename (normalized u) \<in> {''leaflet.css'', ''marker-icon.png'',
               ''marker-icon-2x.png'', ''marker-shadow.png''}"
  have "endswith (normalized u) (basename (normalized u))"
    using assms endswith_basename startswith_https_slash by blast
  with b show "well_known (normalized u)"
    unfolding well_known_def by auto
qed

theorem url_to_name_well_known_witness:
  "url_to_name ''https://x/marker-icon.png'' = Inr ''marker-icon.png''
   \<and> (\<exists>sfx. url_to_name ''https://cdn.example/lib.js''
               = Inr (sha1_hex ''https://cdn.example/lib.js'' @ sfx))"
proof (intro conjI)
  have n1: "normalized ''https://x/marker-icon.png'' = ''https://x/marker-icon.png''"
    by (simp add: normalized_def startswith_def)
  have s1: "startswith (normalized ''https://x/marker-icon.png'') ''https://''"
    by (simp add: n1 startswith_def)
  have w1: "well_known (normalized ''https://x/marker-icon.png'')"
    by (simp add: n1 well_known_def endswith_def)
  have b1: "basename ''https://x/marker-icon.png'' = ''marker-icon.png''"
    by (simp add: basename_def)
  show "url_to_name ''https://x/marker-icon.png'' = Inr ''marker-icon.png''"
    using url_to_name_well_known [OF s1] w1 b1 by (simp add: n1)
  have n2: "normalized ''https://cdn.example/lib.js'' = ''https://cdn.example/lib.js''"
    by (simp add: normalized_def startswith_def)
  have s2: "startswith (normalized ''https://cdn.example/lib.js'') ''https://''"
    by (simp add: n2 startswith_def)
  have w2: "\<not> well_known (normalized ''https://cdn.example/lib.js'')"
    by (simp add: n2 well_known_def endswith_def)
  show "\<exists>sfx. url_to_name ''https://cdn.example/lib.js''
               = Inr (sha1_hex ''https://cdn.example/lib.js'' @ sfx)"
    using url_to_name_well_known [OF s2] w2 by (simp add: n2)
qed

text \<open>
  The claim as it was stated fails: the final path segment \<open>myleaflet.css\<close> is none of
  the four names, and the URL keeps its basename; the name is not the digest.
\<close>

theorem url_to_name_segment_counterexample:
  "url_to_name ''https://x/myleaflet.css'' = Inr ''myleaflet.css''
   \<and> basename ''https://x/myleaflet.css'' = ''myleaflet.css''
   \<and> ''myleaflet.css'' \<notin> {''leaflet.css'', ''marker-icon.png'', ''marker-icon-2x.png'',
         ''marker-shadow.png''}
   \<and> take 40 ''myleaflet.css'' \<noteq> sha1_hex ''https://x/myleaflet.css''"
proof (intro conjI)
  have n: "normalized ''https://x/myleaflet.css'' = ''https://x/myleaflet.css''"
    by (simp add: normalized_def startswith_def)
  have s: "startswith ''https://x/myleaflet.css'' ''https://''"
    by (simp add: startswith_def)
  have w: "well_known ''https://x/myleaflet.css''"
    by (simp add: well_known_def endswith_def)
  show b: "basename ''https://x/myleaflet.css'' = ''myleaflet.css''"
    by (simp add: basename_def)
  show "url_to_name ''https://x/myleaflet.css'' = Inr ''myleaflet.css''"
    by (simp add: url_to_name_unfold n s w b)
  show "''myleaflet.css'' \<notin> {''leaflet.css'', ''marker-icon.png'', ''marker-icon-2x.png'',
         ''marker-shadow.png''}"
    by simp
  have "length (take 40 ''myleaflet.css'') \<noteq> length (sha1_hex ''https://x/myleaflet.css'')"
    by simp
  then show "take 40 ''myleaflet.css'' \<noteq> sha1_hex ''https://x/myleaflet.css''"
    by metis
qed

text \<open>
  C2, as the code has it. For a valid URL that does not end with a well-known name and
  whose file suffix contains no \<open>#\<close>, \<open>url_to_name\<close> returns the SHA-1 hex digest of the
  URL followed by the file suffix of the URL; the suffix is that of \<open>pathlib\<close>, so a
  query string after the extension is part of it. (What happens to a suffix with a \<open>#\<close>
  is not stated here.)
\<close>

theorem url_to_name_hashed:
  assumes "startswith (normalized u) ''https://''"
    and "\<not> well_known (normalized u)"
    and "CHR ''#'' \<notin> set (path_suffix (normalized u))"
  shows "url_to_name u = Inr (sha1_hex (normalized u) @ path_suffix (normalized u))"
  using assms by (simp add: url_to_name_unfold)

lemma suffix_leaflet_query:
  "path_suffix ''https://cdn.example/leaflet.css?v=2'' = ''.css?v=2''"
  by (simp add: path_suffix_def path_name_def py_rfind_def startswith_def)

theorem url_to_name_hashed_witness:
  "url_to_name ''https://cdn.example/leaflet.css?v=2''
     = Inr (sha1_hex ''https://cdn.example/leaflet.css?v=2'' @ ''.css?v=2'')"
proof -
  have n: "normalized ''https://cdn.example/leaflet.css?v=2'' = ''https://cdn.example/leaflet.css?v=2''"
    by (simp add: normalized_def startswith_def)
  have s: "startswith (normalized ''https://cdn.example/leaflet.css?v=2'') ''https://''"
    by (simp add: n startswith_def)
  have w: "\<not> well_known (normalized ''https://cdn.example/leaflet.css?v=2'')"
    by (simp add: n well_known_def endswith_def)
  have h: "CHR ''#'' \<notin> set (path_suffix (normalized ''https://cdn.example/leaflet.css?v=2''))"
    by (simp add: n suffix_leaflet_query)
  show ?thesis
    using url_to_name_hashed [OF s w h] by (simp add: n suffix_leaflet_query)
qed

text \<open>
  The claim as it was stated fails on its own example: the suffix of the URL is
  \<open>.css?v=2#frag\<close>, and the name that \<open>url_to_name\<close> returns is the digest followed by a
  single dot, which does not end in \<open>.css\<close>.
\<close>

lemma suffix_leaflet_frag:
  "path_suffix ''https://cdn.example/leaflet.css?v=2#frag'' = ''.css?v=2#frag''"
  by (simp add: path_suffix_def path_name_def py_rfind_def startswith_def)

theorem url_to_name_fragment_counterexample:
  "url_to_name ''https://cdn.example/leaflet.css?v=2#frag''
     = Inr (sha1_hex ''https://cdn.example/leaflet.css?v=2#frag'' @ ''.'')
   \<and> \<not> endswith (sha1_hex ''https://cdn.example/leaflet.css?v=2#frag'' @ ''.'') ''.css''"
proof (intro conjI)
  have n: "normalized ''https://cdn.example/leaflet.css?v=2#frag''
             = ''https://cdn.example/leaflet.css?v=2#frag''"
    by (simp add: normalized_def startswith_def)
  have s: "startswith ''https://cdn.example/leaflet.css?v=2#frag'' ''https://''"
    by (simp add: startswith_def)
  have w: "\<not> well_known ''https://cdn.example/leaflet.css?v=2#frag''"
    by (simp add: well_known_def endswith_def)
  show "url_to_name ''https://cdn.example/leaflet.css?v=2#frag''
          = Inr (sha1_hex ''https://cdn.example/leaflet.css?v=2#frag'' @ ''.'')"
    by (simp add: url_to_name_unfold n s w suffix_leaflet_frag)
  show "\<not> endswith (sha1_hex ''https://cdn.example/leaflet.css?v=2#frag'' @ ''.'') ''.css''"
  proof
    assume "endswith (sha1_hex ''https://cdn.example/leaflet.css?v=2#frag'' @ ''.'') ''.css''"
    then have "last (sha1_hex ''https://cdn.example/leaflet.css?v=2#frag'' @ ''.'') = last ''.css''"
      by (rule endswith_last) simp
    then show False by simp
  qed
qed

section \<open>The relative URL resolver\<close>

lemma strip_segment:
  assumes "CHR ''/'' \<in> set u"
  shows "\<exists>i. slice_to u (py_rfind u ''/'') = take i u
           \<and> split_on CHR ''/'' (take i u) = butlast (split_on CHR ''/'' u)"
proof -
  from assms obtain i where i: "rfind_opt ''/'' u = Some i"
    using rfind_opt_None_iff [of "CHR ''/''" u] by auto
  have "slice_to u (py_rfind u ''/'') = take i u"
    by (simp add: py_rfind_def slice_to_def i)
  then show ?thesis
    using rfind_opt_basename(3) [OF i] by blast
qed

lemma slash_if_segments: "1 < length (split_on CHR ''/'' u) \<Longrightarrow> CHR ''/'' \<in> set u"
  using split_on_notin [of "CHR ''/''" u] by fastforce

lemma url_relative_loop_segments:
  "leading_ups r < length (split_on CHR ''/'' u) \<Longrightarrow>
   url_relative_loop u r =
     join_on CHR ''/'' (take (length (split_on CHR ''/'' u) - leading_ups r) (split_on CHR ''/'' u))
       @ ''/'' @ drop (3 * leading_ups r) r"
proof (induction u r rule: url_relative_loop.induct)
  case (1 u r)
  let ?segs = "split_on CHR ''/'' u"
  show ?case
  proof (cases "startswith r ''../''")
    case False
    then have "leading_ups r = 0"
      by (simp add: leading_ups.simps)
    with False show ?thesis
      by (simp add: url_relative_loop.simps [of u r] join_split)
  next
    case True
    define k where "k = leading_ups (drop 3 r)"
    have ups: "leading_ups r = Suc k"
      using True by (simp add: leading_ups.simps [of r] k_def)
    with "1.prems" have len: "Suc k < length ?segs" by simp
    then have "CHR ''/'' \<in> set u"
      using slash_if_segments by simp
    then obtain i where i: "slice_to u (py_rfind u ''/'') = take i u"
      and b: "split_on CHR ''/'' (take i u) = butlast ?segs"
      using strip_segment by blast
    have "leading_ups (drop 3 r) < length (split_on CHR ''/'' (take i u))"
      using len by (simp add: b k_def)
    with "1.IH" [OF True] have
      "url_relative_loop (take i u) (drop 3 r) =
         join_on CHR ''/'' (take (length (butlast ?segs) - k) (butlast ?segs))
           @ ''/'' @ drop (3 * k) (drop 3 r)"
      by (simp add: i b k_def)
    moreover have "take (length (butlast ?segs) - k) (butlast ?segs) = take (length ?segs - Suc k) ?segs"
      using len by (simp add: take_butlast)
    moreover have "drop (3 * k) (drop 3 r) = drop (3 * Suc k) r"
      by (simp add: add.commute)
    ultimately show ?thesis
      using True by (simp add: url_relative_loop.simps [of u r] i ups)
  qed
qed

text \<open>
  C5, as the code has it. Where the base has more \<open>/\<close> than the reference has leading
  \<open>../\<close> (one for the first cut and one more for each \<open>../\<close>), \<open>url_relative\<close> cuts
  the base before its final \<open>/\<close>, removes one more trailing segment for each leading
  \<open>../\<close>, which it also removes from the reference, and joins the two with a \<open>/\<close>; and
  it gives the two results of the examples.
\<close>

theorem url_relative_segments:
  "(leading_ups r < length (filter (\<lambda>c. c = CHR ''/'') u) \<longrightarrow>
      url_relative u r = segments_resolve u r)
   \<and> url_relative ''https://a/b/c/style.css'' ''../img/x.png'' = ''https://a/b/img/x.png''
   \<and> url_relative ''https://a/b/c.css'' ''d.png'' = ''https://a/b/d.png''"
proof (intro conjI impI)
  let ?segs = "split_on CHR ''/'' u"
  assume h: "leading_ups r < length (filter (\<lambda>c. c = CHR ''/'') u)"
  then have len: "Suc (leading_ups r) < length ?segs"
    by (simp add: length_split_on)
  then have "CHR ''/'' \<in> set u"
    using slash_if_segments by simp
  then obtain i where i: "slice_to u (py_rfind u ''/'') = take i u"
    and b: "split_on CHR ''/'' (take i u) = butlast ?segs"
    using strip_segment by blast
  have "leading_ups r < length (split_on CHR ''/'' (take i u))"
    using len by (simp add: b)
  then have "url_relative_loop (take i u) r =
      join_on CHR ''/'' (take (length (butlast ?segs) - leading_ups r) (butlast ?segs))
        @ ''/'' @ drop (3 * leading_ups r) r"
    using url_relative_loop_segments [of r "take i u"] by (simp add: b)
  moreover have "take (length (butlast ?segs) - leading_ups r) (butlast ?segs)
      = take (length ?segs - (leading_ups r + 1)) ?segs"
    using len by (simp add: take_butlast)
  ultimately show "url_relative u r = segments_resolve u r"
    by (simp add: url_relative_def segments_resolve_def i Let_def)
next
  show "url_relative ''https://a/b/c/style.css'' ''../img/x.png'' = ''https://a/b/img/x.png''"
    by (simp add: url_relative_def url_relative_loop.simps py_rfind_def slice_to_def startswith_def)
next
  show "url_relative ''https://a/b/c.css'' ''d.png'' = ''https://a/b/d.png''"
    by (simp add: url_relative_def url_relative_loop.simps py_rfind_def slice_to_def startswith_def)
qed

theorem url_relative_segments_witness:
  "leading_ups ''../../x.png'' < length (filter (\<lambda>c. c = CHR ''/'') ''https://a/b/c/style.css'')
   \<and> url_relative ''https://a/b/c/style.css'' ''../../x.png'' = ''https://a/x.png''
   \<and> segments_resolve ''https://a/b/c/style.css'' ''../../x.png'' = ''https://a/x.png''"
proof -
  have k: "leading_ups ''../../x.png'' = 2"
    by (simp add: leading_ups.simps startswith_def)
  have h: "leading_ups ''../../x.png'' < length (filter (\<lambda>c. c = CHR ''/'') ''https://a/b/c/style.css'')"
    by (simp add: k)
  have s: "segments_resolve ''https://a/b/c/style.css'' ''../../x.png'' = ''https://a/x.png''"
    by (simp add: segments_resolve_def k)
  from url_relative_segments [of "''../../x.png''" "''https://a/b/c/style.css''"] h
  have "url_relative ''https://a/b/c/style.css'' ''../../x.png''
          = segments_resolve ''https://a/b/c/style.css'' ''../../x.png''"
    by blast
  with h s show ?thesis by simp
qed

text \<open>
  The claim as it was stated fails where the reference has as many leading \<open>../\<close> as the
  base has \<open>/\<close>: after \<open>https://a\<close> and \<open>https:/\<close> the base is \<open>https:\<close>, which has no \<open>/\<close>
  left, and the last cut removes its final character instead of a path segment.
\<close>

theorem url_relative_excess_counterexample:
  "url_relative ''https://a/s.css'' ''../../../x.png'' = ''https/x.png''
   \<and> segments_resolve ''https://a/s.css'' ''../../../x.png'' = ''/x.png''
   \<and> leading_ups ''../../../x.png'' = 3
   \<and> length (filter (\<lambda>c. c = CHR ''/'') ''https://a/s.css'') = 3"
  by code_simp

section \<open>Runs that change nothing\<close>

lemma for_each_unchanged:
  "(\<And>x. x \<in> set xs \<Longrightarrow> f x s = (None, s)) \<Longrightarrow> for_each f xs s = (None, s)"
  by (induction xs) auto

lemma local_https_no_match: "URL_RE_search line = None \<Longrightarrow> local_https line s = (Inr line, s)"
  by (simp add: local_https_def)

lemma local_https_lines_no_match:
  "(\<And>line. line \<in> set ls \<Longrightarrow> URL_RE_search line = None) \<Longrightarrow>
   local_https_lines ls s = (Inr ls, s)"
  by (induction ls) (auto simp: local_https_no_match)

text \<open>
  C7. When no line of any of the files contains a quoted URL that the scanner's pattern
  matches, as in a file that was rewritten before, \<open>process_py\<close> raises nothing and
  leaves the whole state as it was: no file is written (the trace gets no \<open>Write\<close>), no
  file text changes, and the \<open>url_map\<close> gets no entry.
\<close>

theorem process_py_unchanged:
  assumes "\<forall>p \<in> set ps. \<exists>content. files s p = Some content
             \<and> (\<forall>line \<in> set (readlines content). URL_RE_search line = None)"
  shows "process_py ps s = (None, s)"
  unfolding process_py_def
proof (rule for_each_unchanged)
  fix p
  assume "p \<in> set ps"
  with assms obtain content where c: "files s p = Some content"
    and n: "\<forall>line \<in> set (readlines content). URL_RE_search line = None"
    by blast
  from n have "local_https_lines (readlines content) s = (Inr (readlines content), s)"
    by (simp add: local_https_lines_no_match)
  with c show "process_py_file p s = (None, s)"
    by (simp add: process_py_file_def)
qed

lemma rewritten_line_no_match:
  "URL_RE_search (''x = '' @ [CHR 0x22] @ ''__mystery://placeholder__/4e8993c7cf16c91940728525425f758ab6ad96f8.js''
       @ [CHR 0x22, CHR 0x0A]) = None"
  by code_simp

lemma rewritten_file_lines:
  "readlines (''x = '' @ [CHR 0x22] @ ''__mystery://placeholder__/4e8993c7cf16c91940728525425f758ab6ad96f8.js''
       @ [CHR 0x22, CHR 0x0A] @ ''y = 1'' @ [CHR 0x0A])
   = [''x = '' @ [CHR 0x22] @ ''__mystery://placeholder__/4e8993c7cf16c91940728525425f758ab6ad96f8.js''
       @ [CHR 0x22, CHR 0x0A], ''y = 1'' @ [CHR 0x0A]]"
  by code_simp

lemma plain_line_no_match: "URL_RE_search (''y = 1'' @ [CHR 0x0A]) = None"
  by code_simp

theorem process_py_unchanged_witness:
  "process_py [Src ''folium/a.py'']
     \<lparr>url_map = [],
      files = [Src ''folium/a.py'' \<mapsto>
        ''x = '' @ [CHR 0x22] @ ''__mystery://placeholder__/4e8993c7cf16c91940728525425f758ab6ad96f8.js''
          @ [CHR 0x22, CHR 0x0A] @ ''y = 1'' @ [CHR 0x0A]],
      events = []\<rparr>
   = (None,
      \<lparr>url_map = [],
      files = [Src ''folium/a.py'' \<mapsto>
        ''x = '' @ [CHR 0x22] @ ''__mystery://placeholder__/4e8993c7cf16c91940728525425f758ab6ad96f8.js''
          @ [CHR 0x22, CHR 0x0A] @ ''y = 1'' @ [CHR 0x0A]],
      events = []\<rparr>)"
  by (rule process_py_unchanged)
    (simp add: rewritten_file_lines rewritten_line_no_match plain_line_no_match del: append.simps)

lemma occurs_in_Nil_iff: "occurs_in p [] = (p = [])"
  by (auto simp: occurs_in_def)

lemma occurs_in_Cons:
  "\<not> startswith (c # cs) p \<Longrightarrow> occurs_in p (c # cs) = occurs_in p cs"
proof
  assume n: "\<not> startswith (c # cs) p" and "occurs_in p (c # cs)"
  then obtain a b where ab: "c # cs = a @ p @ b"
    by (auto simp: occurs_in_def)
  show "occurs_in p cs"
  proof (cases a)
    case Nil
    with ab n show ?thesis by (simp add: startswith_iff)
  next
    case (Cons x a')
    with ab show ?thesis by (auto simp: occurs_in_def)
  qed
next
  assume "occurs_in p cs"
  then obtain a b where "cs = a @ p @ b"
    by (auto simp: occurs_in_def)
  then have "c # cs = (c # a) @ p @ b" by simp
  then show "occurs_in p (c # cs)"
    unfolding occurs_in_def by blast
qed

lemma find_opt_None_iff_occurs: "(find_opt p s = None) = (\<not> occurs_in p s)"
proof (induction s)
  case Nil
  then show ?case by (simp add: occurs_in_Nil_iff)
next
  case (Cons c cs)
  show ?case
  proof (cases "startswith (c # cs) p")
    case True
    then have "occurs_in p (c # cs)"
      unfolding occurs_in_def startswith_iff by (metis append_Nil)
    with True show ?thesis by simp
  next
    case False
    with Cons show ?thesis by (simp add: occurs_in_Cons)
  qed
qed

lemma py_find_nonneg_iff: "(0 \<le> py_find s p) = occurs_in p s"
  using find_opt_None_iff_occurs [of p s] by (auto simp: py_find_def split: option.splits)

text \<open>
  A run of \<open>replace\<close> over files none of which holds the placeholder raises nothing and
  leaves the whole state as it was.
\<close>

lemma replace_without_placeholder:
  assumes "\<forall>p \<in> set ps. \<exists>content. files s p = Some content
             \<and> \<not> occurs_in PLACEHOLDER (univ_nl content)"
  shows "replace ps url_prefix s = (None, s)"
  unfolding replace_def
proof (rule for_each_unchanged)
  fix p
  assume "p \<in> set ps"
  with assms obtain content where c: "files s p = Some content"
    and n: "\<not> occurs_in PLACEHOLDER (univ_nl content)"
    by blast
  from n have "\<not> 0 \<le> py_find (univ_nl content) PLACEHOLDER"
    by (simp add: py_find_nonneg_iff)
  with c show "replace_file url_prefix p s = (None, s)"
    by (simp add: replace_file_def)
qed

lemma first_run_text:
  "univ_nl (''x = '' @ [CHR 0x22] @ ''__mystery://placeholder__/lib.js'' @ [CHR 0x22, CHR 0x0A])
     = ''x = '' @ [CHR 0x22] @ ''__mystery://placeholder__/lib.js'' @ [CHR 0x22, CHR 0x0A]"
  "0 \<le> py_find (''x = '' @ [CHR 0x22] @ ''__mystery://placeholder__/lib.js'' @ [CHR 0x22, CHR 0x0A])
          PLACEHOLDER"
  "py_replace (PLACEHOLDER @ ''/'') ''https://local/base/''
     (''x = '' @ [CHR 0x22] @ ''__mystery://placeholder__/lib.js'' @ [CHR 0x22, CHR 0x0A])
     = ''x = '' @ [CHR 0x22] @ ''https://local/base/lib.js'' @ [CHR 0x22, CHR 0x0A]"
  by code_simp+

section \<open>The source scanner\<close>

lemma URL_RE_match_Some:
  assumes "URL_RE_match s = Some n"
  shows "\<exists>q1 url q2 rest. s = q1 # url @ q2 # rest \<and> is_quote q1 \<and> is_quote q2
           \<and> n = length url + 2 \<and> map to_lower (take 8 url) = ''https://''"
proof -
  from assms obtain q rest where s: "s = q # rest"
    by (cases s) (auto simp: URL_RE_match_def)
  define run where "run = takeWhile (\<lambda>c. \<not> is_quote c) (drop 8 rest)"
  from assms s have q: "is_quote q" and h: "map to_lower (take 8 rest) = ''https://''"
    and r: "run \<noteq> []" and l: "9 + length run < length s" and n: "n = 10 + length run"
    by (auto simp: URL_RE_match_def Let_def run_def split: if_splits)
  from h have "length (map to_lower (take 8 rest)) = 8" by simp
  then have l8: "length (take 8 rest) = 8" by simp
  define tl where "tl = dropWhile (\<lambda>c. \<not> is_quote c) (drop 8 rest)"
  have d: "drop 8 rest = run @ tl"
    by (simp add: run_def tl_def)
  have "length (drop 8 rest) = length rest - 8" by simp
  with l s d have "tl \<noteq> []" by auto
  then obtain q2 rest' where t: "tl = q2 # rest'" by (cases tl) auto
  have "is_quote (hd tl)"
    using hd_dropWhile [of "\<lambda>c. \<not> is_quote c" "drop 8 rest"] \<open>tl \<noteq> []\<close>
    by (simp add: tl_def)
  with t have q2: "is_quote q2" by simp
  have "rest = take 8 rest @ run @ q2 # rest'"
    using d t by (metis append_take_drop_id)
  then have "s = q # (take 8 rest @ run) @ q2 # rest'"
    using s by simp
  moreover have "n = length (take 8 rest @ run) + 2"
    using n l8 by simp
  moreover have "map to_lower (take 8 (take 8 rest @ run)) = ''https://''"
    using h l8 by simp
  ultimately show ?thesis
    using q q2 by (intro exI [of _ q] exI [of _ "take 8 rest @ run"] exI [of _ q2] exI [of _ rest']) simp
qed

lemma URL_RE_search_from_Some:
  "URL_RE_search_from k s = Some (b, e) \<Longrightarrow>
   k \<le> b \<and> b - k \<le> length s \<and> URL_RE_match (drop (b - k) s) = Some (e - b) \<and> b \<le> e"
proof (induction s arbitrary: k)
  case Nil
  then show ?case by simp
next
  case (Cons c cs)
  show ?case
  proof (cases "URL_RE_match (c # cs)")
    case (Some n)
    with Cons.prems show ?thesis by auto
  next
    case None
    with Cons.prems have "URL_RE_search_from (Suc k) cs = Some (b, e)" by simp
    from Cons.IH [OF this] have ih: "Suc k \<le> b" "b - Suc k \<le> length cs"
      "URL_RE_match (drop (b - Suc k) cs) = Some (e - b)" "b \<le> e"
      by simp_all
    from ih(1) have "b - k = Suc (b - Suc k)" by arith
    with ih show ?thesis by simp
  qed
qed

lemma URL_RE_search_Some:
  assumes "URL_RE_search line = Some (b, e)"
  shows "\<exists>pre q1 url q2 post. line = pre @ q1 # url @ q2 # post \<and> length pre = b
           \<and> is_quote q1 \<and> is_quote q2 \<and> e = b + length url + 2
           \<and> map to_lower (take 8 url) = ''https://''"
proof -
  from assms have m: "URL_RE_match (drop b line) = Some (e - b)" and le: "b \<le> e"
    and bl: "b \<le> length line"
    using URL_RE_search_from_Some [of 0 line b e] by (auto simp: URL_RE_search_def)
  from URL_RE_match_Some [OF m] obtain q1 url q2 rest where
    d: "drop b line = q1 # url @ q2 # rest" and q: "is_quote q1" "is_quote q2"
    and n: "e - b = length url + 2" and h: "map to_lower (take 8 url) = ''https://''"
    by auto
  define pre where "pre = take b line"
  from n le have e: "e = b + length url + 2" by simp
  have "line = pre @ drop b line"
    by (simp add: pre_def)
  then have line: "line = pre @ q1 # url @ q2 # rest"
    by (simp add: d)
  have lb: "length pre = b"
    using bl by (simp add: pre_def)
  show ?thesis
  proof (intro exI conjI)
    show "line = pre @ q1 # url @ q2 # rest" by fact
    show "length pre = b" by fact
    show "is_quote q1" by fact
    show "is_quote q2" by fact
    show "e = b + length url + 2" by fact
    show "map to_lower (take 8 url) = ''https://''" by fact
  qed
qed

lemma local_https_run:
  assumes "URL_RE_search line = Some (b, e)"
    and "\<not> transcript line"
    and "startswith (slice line (b + 1) (e - 1)) ''https://''"
  shows "\<exists>pre q1 url q2 post name.
           line = pre @ q1 # url @ q2 # post \<and> length pre = b \<and> is_quote q1 \<and> is_quote q2
           \<and> url = slice line (b + 1) (e - 1)
           \<and> url_to_name url = Inr name
           \<and> local_https line s =
               (Inr (pre @ q1 # PLACEHOLDER @ ''/'' @ name @ q2 # post),
                s\<lparr>url_map := AList.update url name (url_map s)\<rparr>)
           \<and> map_of (url_map (snd (local_https line s))) url = Some name"
proof -
  from URL_RE_search_Some [OF assms(1)] obtain pre q1 url q2 post where
    line: "line = pre @ q1 # url @ q2 # post" and lb: "length pre = b"
    and q: "is_quote q1" "is_quote q2" and e: "e = b + length url + 2"
    by auto
  have d1: "drop (b + 1) line = url @ q2 # post"
    by (simp add: line lb)
  have u: "slice line (b + 1) (e - 1) = url"
    unfolding slice_def d1 by (simp add: e)
  have t1: "take (b + 1) line = pre @ [q1]"
    by (simp add: line lb)
  have d2: "drop (e - 1) line = q2 # post"
    by (simp add: e line lb)
  from assms(3) have "startswith url ''https://''"
    unfolding u .
  then have "startswith (normalized url) ''https://''"
    by (auto simp: normalized_def startswith_iff)
  then have "\<exists>name. url_to_name url = Inr name"
    by (simp add: url_to_name_unfold)
  then obtain name where name: "url_to_name url = Inr name" ..
  have tr: "(startswith (strip line) ''>>>'' \<or> startswith (strip line) ''...'') = False"
    using assms(2) by (simp add: transcript_def)
  have run: "local_https line s =
      (Inr (pre @ q1 # PLACEHOLDER @ ''/'' @ name @ q2 # post),
       s\<lparr>url_map := AList.update url name (url_map s)\<rparr>)"
    apply (simp only: local_https_def assms(1) option.case prod.case Let_def tr if_False
        u name sum.case t1 d2)
    apply simp
    done
  have m: "map_of (url_map (snd (local_https line s))) url = Some name"
    by (simp add: run update_conv')
  show ?thesis
  proof (intro exI conjI)
    show "line = pre @ q1 # url @ q2 # post" by fact
    show "length pre = b" by fact
    show "is_quote q1" by fact
    show "is_quote q2" by fact
    show "url = slice line (b + 1) (e - 1)" using u by simp
    show "url_to_name url = Inr name" by fact
    show "local_https line s =
      (Inr (pre @ q1 # PLACEHOLDER @ ''/'' @ name @ q2 # post),
       s\<lparr>url_map := AList.update url name (url_map s)\<rparr>)" by fact
    show "map_of (url_map (snd (local_https line s))) url = Some name" by fact
  qed
qed

text \<open>
  C4, as the code has it. When the leftmost match of the scanner's pattern in a line
  (a quote, \<open>https://\<close> in either case, characters that are no quotes, a quote) holds a
  URL that starts with \<open>https://\<close> in lower case, and the line is no transcript line,
  \<open>local_https\<close> raises nothing, replaces the text between the two quotes of that match
  by the placeholder, a \<open>/\<close> and the name of the URL, and stores the URL with that name in
  the \<open>url_map\<close>.
\<close>

theorem local_https_rewrites:
  assumes "URL_RE_search line = Some (b, e)"
    and "\<not> transcript line"
    and "startswith (slice line (b + 1) (e - 1)) ''https://''"
  shows "\<exists>pre q1 url q2 post name.
           line = pre @ q1 # url @ q2 # post \<and> length pre = b \<and> is_quote q1 \<and> is_quote q2
           \<and> url = slice line (b + 1) (e - 1)
           \<and> url_to_name url = Inr name
           \<and> local_https line s =
               (Inr (pre @ q1 # PLACEHOLDER @ ''/'' @ name @ q2 # post),
                s\<lparr>url_map := AList.update url name (url_map s)\<rparr>)
           \<and> map_of (url_map (snd (local_https line s))) url = Some name"
  using assms by (rule local_https_run)

lemma example_line_facts:
  "URL_RE_search (''x = '' @ [CHR 0x22] @ ''https://cdn.example/lib.js'' @ [CHR 0x22, CHR 0x0A])
     = Some (4, 32)"
  "transcript (''x = '' @ [CHR 0x22] @ ''https://cdn.example/lib.js'' @ [CHR 0x22, CHR 0x0A]) = False"
  "slice (''x = '' @ [CHR 0x22] @ ''https://cdn.example/lib.js'' @ [CHR 0x22, CHR 0x0A]) (4 + 1) (32 - 1)
     = ''https://cdn.example/lib.js''"
  "take (4 + 1) (''x = '' @ [CHR 0x22] @ ''https://cdn.example/lib.js'' @ [CHR 0x22, CHR 0x0A])
     = ''x = '' @ [CHR 0x22]"
  "drop (32 - 1) (''x = '' @ [CHR 0x22] @ ''https://cdn.example/lib.js'' @ [CHR 0x22, CHR 0x0A])
     = [CHR 0x22, CHR 0x0A]"
  by code_simp+

lemma example_url_name:
  "url_to_name ''https://cdn.example/lib.js'' = Inr (sha1_hex ''https://cdn.example/lib.js'' @ ''.js'')"
proof -
  have n: "normalized ''https://cdn.example/lib.js'' = ''https://cdn.example/lib.js''"
    by (simp add: normalized_def startswith_def)
  have s: "startswith ''https://cdn.example/lib.js'' ''https://''"
    by (simp add: startswith_def)
  have w: "\<not> well_known ''https://cdn.example/lib.js''"
    by (simp add: well_known_def endswith_def)
  have p: "path_suffix ''https://cdn.example/lib.js'' = ''.js''"
    by (simp add: path_suffix_def path_name_def py_rfind_def startswith_def)
  show ?thesis
    by (simp add: url_to_name_unfold n s w p)
qed

theorem local_https_rewrites_witness:
  "URL_RE_search (''x = '' @ [CHR 0x22] @ ''https://cdn.example/lib.js'' @ [CHR 0x22, CHR 0x0A])
     = Some (4, 32)
   \<and> \<not> transcript (''x = '' @ [CHR 0x22] @ ''https://cdn.example/lib.js'' @ [CHR 0x22, CHR 0x0A])
   \<and> local_https (''x = '' @ [CHR 0x22] @ ''https://cdn.example/lib.js'' @ [CHR 0x22, CHR 0x0A])
         \<lparr>url_map = [], files = Map.empty, events = []\<rparr>
       = (Inr (''x = '' @ [CHR 0x22] @ ''__mystery://placeholder__/''
                @ sha1_hex ''https://cdn.example/lib.js'' @ ''.js'' @ [CHR 0x22, CHR 0x0A]),
          \<lparr>url_map = [(''https://cdn.example/lib.js'',
                        sha1_hex ''https://cdn.example/lib.js'' @ ''.js'')],
           files = Map.empty, events = []\<rparr>)
   \<and> map_of (url_map (snd (local_https
         (''x = '' @ [CHR 0x22] @ ''https://cdn.example/lib.js'' @ [CHR 0x22, CHR 0x0A])
         \<lparr>url_map = [], files = Map.empty, events = []\<rparr>)))
       ''https://cdn.example/lib.js''
     = Some (sha1_hex ''https://cdn.example/lib.js'' @ ''.js'')"
proof (intro conjI)
  let ?line = "''x = '' @ [CHR 0x22] @ ''https://cdn.example/lib.js'' @ [CHR 0x22, CHR 0x0A]"
  let ?s = "\<lparr>url_map = [], files = Map.empty, events = []\<rparr>"
  show h1: "URL_RE_search ?line = Some (4, 32)"
    by (rule example_line_facts)
  show h2: "\<not> transcript ?line"
    by (simp only: example_line_facts not_False_eq_True)
  have h3: "startswith (slice ?line (4 + 1) (32 - 1)) ''https://''"
    by (simp only: example_line_facts) (simp add: startswith_def)
  have tr: "(startswith (strip ?line) ''>>>'' \<or> startswith (strip ?line) ''...'') = False"
    using h2 by (simp only: transcript_def)
  show "local_https ?line ?s
       = (Inr (''x = '' @ [CHR 0x22] @ ''__mystery://placeholder__/''
                @ sha1_hex ''https://cdn.example/lib.js'' @ ''.js'' @ [CHR 0x22, CHR 0x0A]),
          \<lparr>url_map = [(''https://cdn.example/lib.js'',
                        sha1_hex ''https://cdn.example/lib.js'' @ ''.js'')],
           files = Map.empty, events = []\<rparr>)"
    apply (simp only: local_https_def h1 option.case prod.case Let_def tr if_False
        example_line_facts example_url_name sum.case)
    apply (simp add: PLACEHOLDER_def)
    done
  from local_https_rewrites [OF h1 h2 h3, of ?s] obtain url name where
    u: "url = slice ?line (4 + 1) (32 - 1)" and n: "url_to_name url = Inr name"
    and m: "map_of (url_map (snd (local_https ?line ?s))) url = Some name"
    by auto
  from u have u': "url = ''https://cdn.example/lib.js''"
    by (simp only: example_line_facts)
  from n have "name = sha1_hex ''https://cdn.example/lib.js'' @ ''.js''"
    by (simp only: u' example_url_name sum.inject)
  with m u' show "map_of (url_map (snd (local_https ?line ?s))) ''https://cdn.example/lib.js''
     = Some (sha1_hex ''https://cdn.example/lib.js'' @ ''.js'')"
    by (simp only:)
qed

text \<open>
  The claim as it was stated fails: this line holds the quoted URL
  \<open>"https://cdn.example/lib.js"\<close> and is no transcript line, but the leftmost match of the
  pattern, which ignores case, is \<open>"HTTPS://cdn.example/a.js"\<close>; \<open>url_to_name\<close> refuses it,
  so \<open>local_https\<close> raises, rewrites nothing and records nothing.
\<close>

lemma upper_line_facts:
  "URL_RE_search (''u = '' @ [CHR 0x22] @ ''HTTPS://cdn.example/a.js'' @ [CHR 0x22] @ '' or ''
      @ [CHR 0x22] @ ''https://cdn.example/lib.js'' @ [CHR 0x22, CHR 0x0A]) = Some (4, 30)"
  "transcript (''u = '' @ [CHR 0x22] @ ''HTTPS://cdn.example/a.js'' @ [CHR 0x22] @ '' or ''
      @ [CHR 0x22] @ ''https://cdn.example/lib.js'' @ [CHR 0x22, CHR 0x0A]) = False"
  "slice (''u = '' @ [CHR 0x22] @ ''HTTPS://cdn.example/a.js'' @ [CHR 0x22] @ '' or ''
      @ [CHR 0x22] @ ''https://cdn.example/lib.js'' @ [CHR 0x22, CHR 0x0A]) (4 + 1) (30 - 1)
     = ''HTTPS://cdn.example/a.js''"
  "URL_RE_match (drop 34 (''u = '' @ [CHR 0x22] @ ''HTTPS://cdn.example/a.js'' @ [CHR 0x22] @ '' or ''
      @ [CHR 0x22] @ ''https://cdn.example/lib.js'' @ [CHR 0x22, CHR 0x0A])) = Some 28"
  by code_simp+

theorem local_https_upper_case_counterexample:
  "URL_RE_match (drop 34 (''u = '' @ [CHR 0x22] @ ''HTTPS://cdn.example/a.js'' @ [CHR 0x22] @ '' or ''
      @ [CHR 0x22] @ ''https://cdn.example/lib.js'' @ [CHR 0x22, CHR 0x0A])) = Some 28
   \<and> \<not> transcript (''u = '' @ [CHR 0x22] @ ''HTTPS://cdn.example/a.js'' @ [CHR 0x22] @ '' or ''
      @ [CHR 0x22] @ ''https://cdn.example/lib.js'' @ [CHR 0x22, CHR 0x0A])
   \<and> local_https (''u = '' @ [CHR 0x22] @ ''HTTPS://cdn.example/a.js'' @ [CHR 0x22] @ '' or ''
      @ [CHR 0x22] @ ''https://cdn.example/lib.js'' @ [CHR 0x22, CHR 0x0A])
        \<lparr>url_map = [], files = Map.empty, events = []\<rparr>
     = (Inl ValueError, \<lparr>url_map = [], files = Map.empty, events = []\<rparr>)"
proof (intro conjI)
  let ?line = "''u = '' @ [CHR 0x22] @ ''HTTPS://cdn.example/a.js'' @ [CHR 0x22] @ '' or ''
      @ [CHR 0x22] @ ''https://cdn.example/lib.js'' @ [CHR 0x22, CHR 0x0A]"
  show "URL_RE_match (drop 34 ?line) = Some 28"
    by (rule upper_line_facts)
  show h2: "\<not> transcript ?line"
    by (simp only: upper_line_facts not_False_eq_True)
  have tr: "(startswith (strip ?line) ''>>>'' \<or> startswith (strip ?line) ''...'') = False"
    using h2 by (simp only: transcript_def)
  have n: "url_to_name ''HTTPS://cdn.example/a.js'' = Inl ValueError"
    by (simp add: url_to_name_unfold normalized_def startswith_def)
  show "local_https ?line \<lparr>url_map = [], files = Map.empty, events = []\<rparr>
     = (Inl ValueError, \<lparr>url_map = [], files = Map.empty, events = []\<rparr>)"
    by (simp only: local_https_def upper_line_facts option.case prod.case Let_def tr if_False
        n sum.case)
qed

section \<open>The invariant of the \<open>url_map\<close>\<close>

lemma startswith_through:
  assumes "c \<notin> set old"
  shows "startswith (a @ c # b) old = startswith a old"
proof
  assume "startswith a old"
  then show "startswith (a @ c # b) old"
    by (auto simp: startswith_iff)
next
  assume "startswith (a @ c # b) old"
  then obtain t where t: "a @ c # b = old @ t"
    by (auto simp: startswith_iff)
  then consider us where "a = old @ us" | us where "a @ us = old" "c # b = us @ t"
    by (auto simp: append_eq_append_conv2)
  then show "startswith a old"
  proof cases
    case 1
    then show ?thesis by (simp add: startswith_iff)
  next
    case 2
    show ?thesis
    proof (cases us)
      case Nil
      with 2 show ?thesis by (auto simp: startswith_iff)
    next
      case (Cons x xs)
      with 2 have "c \<in> set old" by auto
      with assms show ?thesis by simp
    qed
  qed
qed

lemma py_replace_Nil [simp]: "py_replace old new [] = (if old = [] then new else [])"
  by (simp add: py_replace.simps)

lemma py_replace_match:
  "old \<noteq> [] \<Longrightarrow> py_replace old new (old @ t) = new @ py_replace old new t"
  by (simp add: py_replace.simps [of old new "old @ t"] startswith_append)

lemma py_replace_nomatch:
  "old \<noteq> [] \<Longrightarrow> \<not> startswith (x # s) old \<Longrightarrow>
   py_replace old new (x # s) = x # py_replace old new s"
  by (simp add: py_replace.simps [of old new "x # s"])

lemma py_replace_through:
  assumes "old \<noteq> []" and "c \<notin> set old"
  shows "py_replace old new (a @ c # b) = py_replace old new a @ c # py_replace old new b"
proof (induction a rule: length_induct)
  case (1 a)
  show ?case
  proof (cases "startswith a old")
    case True
    then obtain t where t: "a = old @ t"
      by (auto simp: startswith_iff)
    with assms(1) have "length t < length a" by simp
    with 1 have ih: "py_replace old new (t @ c # b) = py_replace old new t @ c # py_replace old new b"
      by blast
    have "py_replace old new (old @ (t @ c # b)) = new @ py_replace old new (t @ c # b)"
      using assms(1) by (rule py_replace_match)
    moreover have "py_replace old new (old @ t) = new @ py_replace old new t"
      using assms(1) by (rule py_replace_match)
    ultimately show ?thesis
      using ih by (simp add: t)
  next
    case False
    then have s: "\<not> startswith (a @ c # b) old"
      using assms(2) by (simp add: startswith_through)
    show ?thesis
    proof (cases a)
      case Nil
      with s assms(1) show ?thesis
        by (simp add: py_replace_nomatch)
    next
      case (Cons x a')
      then have "length a' < length a" by simp
      with 1 have ih: "py_replace old new (a' @ c # b) = py_replace old new a' @ c # py_replace old new b"
        by blast
      have "py_replace old new (x # (a' @ c # b)) = x # py_replace old new (a' @ c # b)"
        using assms(1) s Cons by (simp add: py_replace_nomatch)
      moreover have "py_replace old new (x # a') = x # py_replace old new a'"
        using assms(1) False Cons by (simp add: py_replace_nomatch)
      ultimately show ?thesis
        using ih Cons by simp
    qed
  qed
qed

lemma basename_append:
  "CHR ''/'' \<notin> set b \<Longrightarrow> basename (a @ CHR ''/'' # b) = b"
  by (simp add: basename_def split_on_append split_on_notin)

lemma drop_prefix_eq:
  assumes "p @ u = a @ t" and "length p \<le> length a"
  shows "u = drop (length p) a @ t"
proof -
  have "drop (length p) (p @ u) = drop (length p) (a @ t)"
    using assms(1) by simp
  then show ?thesis
    using assms(2) by simp
qed

lemma name_marker_icon:
  assumes "url_to_name u2 = Inr ''marker-icon.png''"
  shows "\<exists>a. u2 = a @ CHR ''/'' # ''marker-icon.png''"
    and "startswith u2 ''//'' \<or> startswith u2 ''https://''"
proof -
  let ?v = "normalized u2"
  from assms have sv: "startswith ?v ''https://''"
    by (simp add: url_to_name_unfold split: if_splits)
  have wk: "well_known ?v"
  proof (rule ccontr)
    assume "\<not> well_known ?v"
    with assms sv obtain sfx where "sha1_hex ?v @ sfx = ''marker-icon.png''"
      by (auto simp: url_to_name_unfold split: if_splits)
    then have "length (sha1_hex ?v @ sfx) = length ''marker-icon.png''"
      by (rule arg_cong)
    then show False by simp
  qed
  with assms sv have bn: "basename ?v = ''marker-icon.png''"
    by (simp add: url_to_name_unfold)
  from sv have "CHR ''/'' \<in> set ?v"
    by (rule startswith_https_slash)
  then obtain a b where v: "?v = a @ CHR ''/'' # b" and b: "CHR ''/'' \<notin> set b"
    using split_list_last by fastforce
  with bn have b': "b = ''marker-icon.png''"
    by (simp add: basename_append)
  show p: "startswith u2 ''//'' \<or> startswith u2 ''https://''"
    using sv by (auto simp: normalized_def split: if_splits)
  show "\<exists>a. u2 = a @ CHR ''/'' # ''marker-icon.png''"
  proof (cases "startswith u2 ''//''")
    case False
    then have "?v = u2" by (simp add: normalized_def)
    with v b' show ?thesis by auto
  next
    case True
    then have h: "''https:'' @ u2 = a @ CHR ''/'' # b"
      using v by (simp add: normalized_def)
    have "6 \<le> length a"
    proof (rule ccontr)
      assume "\<not> 6 \<le> length a"
      then have l: "length a < 6" by simp
      have "(''https:'' @ u2) ! length a = CHR ''/''"
        unfolding h by (rule nth_append_length)
      moreover have "\<And>p :: string. length a < length p \<Longrightarrow> (p @ u2) ! length a = p ! length a"
        by (simp add: nth_append)
      from this [of "''https:''"] l
      have "(''https:'' @ u2) ! length a = ''https:'' ! length a"
        by simp
      moreover have "''https:'' ! length a \<in> set ''https:''"
        using l by (intro nth_mem) simp
      ultimately have "CHR ''/'' \<in> set ''https:''" by simp
      then show False by simp
    qed
    then have "length ''https:'' \<le> length a" by simp
    with h have "u2 = drop (length ''https:'') a @ CHR ''/'' # b"
      by (rule drop_prefix_eq)
    with b' show ?thesis by auto
  qed
qed

lemma py_replace_marker_scheme:
  "py_replace ''marker-icon.png'' new ''https:'' = ''https:''"
  by (simp add: py_replace_nomatch startswith_def)

lemma py_replace_marker_self:
  "py_replace ''marker-icon.png'' new ''marker-icon.png'' = new"
  using py_replace_match [of "''marker-icon.png''" new "[]"] by simp

lemma sibling_name:
  assumes "url_to_name u2 = Inr ''marker-icon.png''"
    and "also = ''marker-icon-2x.png'' \<or> also = ''marker-shadow.png''"
  shows "url_to_name (py_replace ''marker-icon.png'' also u2) = Inr also"
proof -
  let ?mi = "''marker-icon.png''"
  let ?R = "py_replace ?mi also u2"
  have thr: "\<And>a b. py_replace ?mi also (a @ CHR ''/'' # b)
      = py_replace ?mi also a @ CHR ''/'' # py_replace ?mi also b"
    by (rule py_replace_through) simp_all
  from name_marker_icon(1) [OF assms(1)] obtain a where a: "u2 = a @ CHR ''/'' # ?mi"
    by auto
  have R: "?R = py_replace ?mi also a @ CHR ''/'' # also"
    by (simp only: a thr py_replace_marker_self)
  have slash: "CHR ''/'' \<notin> set also"
    using assms(2) by auto
  have "\<exists>h. normalized ?R = h @ ?R \<and> startswith (h @ ?R) ''https://''"
  proof (cases "startswith u2 ''//''")
    case True
    then obtain t where "u2 = [] @ CHR ''/'' # ([] @ CHR ''/'' # t)"
      by (auto simp: startswith_iff)
    then have "?R = CHR ''/'' # CHR ''/'' # py_replace ?mi also t"
      by (simp only: thr) simp
    then have "startswith ?R ''//''"
      by (simp add: startswith_def)
    then have "normalized ?R = ''https:'' @ ?R \<and> startswith (''https:'' @ ?R) ''https://''"
      by (auto simp: normalized_def startswith_iff)
    then show ?thesis by blast
  next
    case False
    with name_marker_icon(2) [OF assms(1)] have "startswith u2 ''https://''" by simp
    then obtain t where "u2 = ''https:'' @ CHR ''/'' # ([] @ CHR ''/'' # t)"
      by (auto simp: startswith_iff)
    then have "?R = ''https:'' @ CHR ''/'' # CHR ''/'' # py_replace ?mi also t"
      by (simp only: thr py_replace_marker_scheme) simp
    then have "normalized ?R = [] @ ?R \<and> startswith ([] @ ?R) ''https://''"
      by (simp add: normalized_def startswith_def)
    then show ?thesis by blast
  qed
  then obtain h where n: "normalized ?R = h @ ?R" and s: "startswith (normalized ?R) ''https://''"
    by auto
  have nR: "normalized ?R = (h @ py_replace ?mi also a) @ CHR ''/'' # also"
    using n R by simp
  have "endswith (normalized ?R) also"
    unfolding endswith_iff using nR by (metis append.assoc append_Cons append_Nil)
  then have wk: "well_known (normalized ?R)"
    using assms(2) by (auto simp: well_known_def)
  have bn: "basename (normalized ?R) = also"
    unfolding nR using slash by (rule basename_append)
  show ?thesis
    using s wk bn by (simp add: url_to_name_unfold)
qed

lemma url_map_ok_update:
  "url_map_ok um \<Longrightarrow> url_to_name k = Inr v \<Longrightarrow> url_map_ok (AList.update k v um)"
  by (induction um) (auto simp: url_map_ok_def)

lemma for_each_invariant:
  assumes "\<And>x s. x \<in> set xs \<Longrightarrow> P s \<Longrightarrow> P (snd (f x s))" and "P s"
  shows "P (snd (for_each f xs s))"
  using assms
proof (induction xs arbitrary: s)
  case Nil
  then show ?case by simp
next
  case (Cons x xs)
  obtain r s' where fx: "f x s = (r, s')" by (cases "f x s")
  with Cons.prems have p: "P s'"
    by (metis list.set_intros(1) snd_conv)
  show ?case
  proof (cases r)
    case None
    with fx Cons.IH [of s'] Cons.prems(1) p show ?thesis by simp
  next
    case (Some err)
    with fx p show ?thesis by simp
  qed
qed

lemma download_file_url_map: "url_map (snd (download_file web u n s)) = url_map s"
  by (simp add: download_file_def split: option.splits)

lemma fetch_also_ok:
  assumes "url_map_ok (url_map s)" and "url_to_name u2 = Inr ''marker-icon.png''"
    and "also = ''marker-icon-2x.png'' \<or> also = ''marker-shadow.png''"
  shows "url_map_ok (url_map (snd (fetch_also web u2 also s)))"
proof -
  obtain r s' where d: "download_file web (py_replace ''marker-icon.png'' also u2) also s = (r, s')"
    by (cases "download_file web (py_replace ''marker-icon.png'' also u2) also s")
  then have "url_map s' = url_map s"
    using download_file_url_map [of web "py_replace ''marker-icon.png'' also u2" "also" s] by simp
  with assms(1) have ok: "url_map_ok (url_map s')" by simp
  have n: "url_to_name (py_replace ''marker-icon.png'' also u2) = Inr also"
    using assms(2,3) by (rule sibling_name)
  show ?thesis
    using d ok url_map_ok_update [OF ok n]
    by (cases r) (simp_all add: fetch_also_def Let_def)
qed

lemma register_ok:
  assumes "url_map_ok (url_map s)"
  shows "url_map_ok (url_map (snd (snd (register web u2 (fr, s)))))"
proof (cases "map_of (url_map s) u2 \<noteq> None")
  case True
  with assms show ?thesis by (simp add: register_def)
next
  case False
  show ?thesis
  proof (cases "url_to_name u2")
    case (Inl err)
    with False assms show ?thesis by (simp add: register_def)
  next
    case (Inr n2)
    obtain r s' where d: "download_file web u2 n2 s = (r, s')"
      by (cases "download_file web u2 n2 s")
    then have "url_map s' = url_map s"
      using download_file_url_map [of web u2 n2 s] by simp
    with assms have ok: "url_map_ok (url_map s')" by simp
    let ?s2 = "s'\<lparr>url_map := AList.update u2 n2 (url_map s')\<rparr>"
    have ok2: "url_map_ok (url_map ?s2)"
      using url_map_ok_update [OF ok Inr] by simp
    show ?thesis
    proof (cases r)
      case (Some err)
      with False Inr d ok show ?thesis by (simp add: register_def Let_def)
    next
      case None
      show ?thesis
      proof (cases "n2 = ''marker-icon.png''")
        case False
        with \<open>\<not> map_of (url_map s) u2 \<noteq> None\<close> Inr d None ok2 show ?thesis
          by (simp add: register_def Let_def)
      next
        case True
        have "url_map_ok (url_map (snd (for_each (fetch_also web u2)
                [''marker-icon-2x.png'', ''marker-shadow.png''] ?s2)))"
        proof (rule for_each_invariant [where P = "\<lambda>s. url_map_ok (url_map s)"])
          fix x and t :: state
          assume "x \<in> set [''marker-icon-2x.png'', ''marker-shadow.png'']"
            and "url_map_ok (url_map t)"
          then show "url_map_ok (url_map (snd (fetch_also web u2 x t)))"
            using Inr True by (intro fetch_also_ok) auto
        qed (rule ok2)
        moreover obtain r3 s3 where fe: "for_each (fetch_also web u2)
                [''marker-icon-2x.png'', ''marker-shadow.png''] ?s2 = (r3, s3)"
          by (cases "for_each (fetch_also web u2)
                [''marker-icon-2x.png'', ''marker-shadow.png''] ?s2")
        moreover have "snd (snd (register web u2 (fr, s))) = s3"
          using \<open>\<not> map_of (url_map s) u2 \<noteq> None\<close> Inr d None True fe
          by (simp add: register_def Let_def del: for_each.simps)
        ultimately show ?thesis by simp
      qed
    qed
  qed
qed

lemma css_match_state:
  "snd (snd (css_match web old_u span (fr, s))) = s
   \<or> (\<exists>u. snd (snd (css_match web old_u span (fr, s))) = snd (snd (register web u (fr, s))))"
proof -
  obtain b e u2 where c: "css_reference (text' fr) span = (b, e, u2)"
    by (cases "css_reference (text' fr) span")
  show ?thesis
  proof (cases "skipped u2")
    case True
    with c show ?thesis by (simp add: css_match_def)
  next
    case False
    define u where "u = (if startswith u2 ''//'' then ''https:'' @ u2 else url_relative old_u u2)"
    obtain r fr' s' where g: "register web u (fr, s) = (r, fr', s')"
      by (cases "register web u (fr, s)")
    have "snd (snd (css_match web old_u span (fr, s))) = s'"
      using c False g
      by (cases r; cases "name2 fr'") (simp_all add: css_match_def Let_def u_def [symmetric])
    moreover have "snd (snd (register web u (fr, s))) = s'"
      using g by simp
    ultimately have "snd (snd (css_match web old_u span (fr, s))) = snd (snd (register web u (fr, s)))"
      by simp
    then show ?thesis by blast
  qed
qed

lemma css_match_ok:
  assumes "url_map_ok (url_map s)"
  shows "url_map_ok (url_map (snd (snd (css_match web old_u span (fr, s)))))"
  using css_match_state [of web old_u span fr s] register_ok [OF assms] assms by auto

lemma css_entry_ok:
  assumes "url_map_ok (url_map s)"
  shows "url_map_ok (url_map (snd (snd (css_entry web entry (n2, s)))))"
proof -
  obtain old_u name where en: "entry = (old_u, name)" by (cases entry)
  show ?thesis
  proof (cases "endswith name ''.css''")
    case False
    with en assms show ?thesis by (simp add: css_entry_def)
  next
    case True
    define s1 where "s1 = s\<lparr>events := events s @ [Scan old_u name]\<rparr>"
    have ok1: "url_map_ok (url_map s1)"
      using assms by (simp add: s1_def)
    show ?thesis
    proof (cases "files s (Dir name)")
      case None
      with en True ok1 show ?thesis
        by (simp add: css_entry_def Let_def s1_def)
    next
      case (Some content)
      let ?run = "for_each (css_match web old_u) (rev (CSS_RE_finditer (univ_nl content)))
                    (\<lparr>text' = univ_nl content, matched = False, name2 = n2\<rparr>, s1)"
      obtain r fr s' where run: "?run = (r, fr, s')" by (cases ?run)
      have f1: "files s1 (Dir name) = Some content"
        using Some by (simp add: s1_def)
      have "url_map_ok (url_map (snd (snd ?run)))"
      proof (rule for_each_invariant [where P = "\<lambda>fs. url_map_ok (url_map (snd fs))"])
        fix x and fs :: "frame \<times> state"
        assume "url_map_ok (url_map (snd fs))"
        then show "url_map_ok (url_map (snd (snd (css_match web old_u x fs))))"
          using css_match_ok [of "snd fs" web old_u x "fst fs"] by simp
      qed (simp add: ok1)
      with run have ok': "url_map_ok (url_map s')" by simp
      have "snd (snd (css_entry web entry (n2, s))) = s'
            \<or> snd (snd (css_entry web entry (n2, s)))
                = s'\<lparr>files := (files s')(Dir name \<mapsto> text' fr),
                      events := events s' @ [Write (Dir name)]\<rparr>"
        using en True f1 run
        by (cases r) (simp_all add: css_entry_def Let_def s1_def [symmetric])
      with ok' show ?thesis by auto
    qed
  qed
qed

lemma download_from_css_ok:
  assumes "url_map_ok (url_map s)"
  shows "url_map_ok (url_map (snd (download_from_css web s)))"
proof -
  have "url_map_ok (url_map (snd (snd (for_each (css_entry web) (url_map s) (None, s)))))"
  proof (rule for_each_invariant [where P = "\<lambda>ns. url_map_ok (url_map (snd ns))"])
    fix x and ns :: "string option \<times> state"
    assume "url_map_ok (url_map (snd ns))"
    then show "url_map_ok (url_map (snd (snd (css_entry web x ns))))"
      using css_entry_ok [of "snd ns" web x "fst ns"] by simp
  qed (simp add: assms)
  then show ?thesis
    by (cases "for_each (css_entry web) (url_map s) (None, s)") (simp add: download_from_css_def)
qed

lemma local_https_ok:
  assumes "url_map_ok (url_map s)"
  shows "url_map_ok (url_map (snd (local_https line s)))"
  using assms
  by (auto simp: local_https_def Let_def url_map_ok_update
      split: option.splits prod.splits sum.splits)

lemma local_https_lines_ok:
  "url_map_ok (url_map s) \<Longrightarrow> url_map_ok (url_map (snd (local_https_lines ls s)))"
proof (induction ls arbitrary: s)
  case Nil
  then show ?case by simp
next
  case (Cons l ls)
  obtain r s' where l: "local_https l s = (r, s')" by (cases "local_https l s")
  with Cons.prems have ok': "url_map_ok (url_map s')"
    using local_https_ok [of s l] by simp
  show ?case
  proof (cases r)
    case (Inl err)
    with l ok' show ?thesis by simp
  next
    case (Inr l')
    obtain r2 s2 where l2: "local_https_lines ls s' = (r2, s2)"
      by (cases "local_https_lines ls s'")
    then have "url_map_ok (url_map s2)"
      using Cons.IH [OF ok'] by simp
    with l Inr l2 show ?thesis
      by (cases r2) simp_all
  qed
qed

lemma process_py_ok:
  assumes "url_map_ok (url_map s)"
  shows "url_map_ok (url_map (snd (process_py ps s)))"
  unfolding process_py_def
proof (rule for_each_invariant [where P = "\<lambda>s. url_map_ok (url_map s)"])
  fix p and t :: state
  assume ok: "url_map_ok (url_map t)"
  show "url_map_ok (url_map (snd (process_py_file p t)))"
  proof (cases "files t p")
    case None
    with ok show ?thesis by (simp add: process_py_file_def)
  next
    case (Some content)
    obtain r t' where l: "local_https_lines (readlines content) t = (r, t')"
      by (cases "local_https_lines (readlines content) t")
    then have "url_map_ok (url_map t')"
      using local_https_lines_ok [OF ok, of "readlines content"] by simp
    with Some l show ?thesis
      by (cases r) (simp_all add: process_py_file_def Let_def)
  qed
qed (rule assms)

lemma download_from_py_ok:
  assumes "url_map_ok (url_map s)"
  shows "url_map_ok (url_map (snd (download_from_py web s)))"
  unfolding download_from_py_def
proof (rule for_each_invariant [where P = "\<lambda>s. url_map_ok (url_map s)"])
  fix x :: "string \<times> string" and t :: state
  assume "url_map_ok (url_map t)"
  then show "url_map_ok (url_map (snd ((case x of (old_u, name) \<Rightarrow> download_file web old_u name) t)))"
    by (cases x) (simp add: download_file_url_map)
qed (rule assms)

lemma process_ok: "url_map_ok (url_map (snd (process web ps s)))"
proof -
  have ok0: "url_map_ok (url_map (s\<lparr>url_map := []\<rparr>))"
    by (simp add: url_map_ok_def)
  obtain r1 s1 where p1: "process_py ps (s\<lparr>url_map := []\<rparr>) = (r1, s1)"
    by (cases "process_py ps (s\<lparr>url_map := []\<rparr>)")
  then have ok1: "url_map_ok (url_map s1)"
    using process_py_ok [OF ok0, of ps] by simp
  obtain r2 s2 where p2: "download_from_py web s1 = (r2, s2)"
    by (cases "download_from_py web s1")
  then have ok2: "url_map_ok (url_map s2)"
    using download_from_py_ok [OF ok1, of web] by simp
  show ?thesis
    using p1 p2 ok1 ok2 download_from_css_ok [OF ok2, of web]
    by (cases r1; cases r2) (simp_all add: process_def)
qed

text \<open>
  C10. Every operation that inserts into the \<open>url_map\<close> keeps the invariant that each
  entry maps a URL to its own local name: \<open>local_https\<close> recording a scanned URL, the
  registration of a resolved URL in \<open>download_from_css\<close> (with the two sibling URLs of
  the marker icon), each single sibling insertion, and so the whole of
  \<open>download_from_css\<close>, whether it ends or raises; a run of \<open>process\<close>, which starts from
  the empty map, therefore always leaves a map with the invariant.
\<close>

theorem url_map_invariant:
  "(url_map_ok (url_map s) \<longrightarrow> url_map_ok (url_map (snd (local_https line s))))
   \<and> (url_map_ok (url_map s) \<longrightarrow> url_map_ok (url_map (snd (snd (register web u2 (fr, s))))))
   \<and> (url_map_ok (url_map s) \<and> url_to_name u2 = Inr ''marker-icon.png''
        \<and> (nm = ''marker-icon-2x.png'' \<or> nm = ''marker-shadow.png'')
      \<longrightarrow> url_map_ok (url_map (snd (fetch_also web u2 nm s))))
   \<and> (url_map_ok (url_map s) \<longrightarrow> url_map_ok (url_map (snd (download_from_css web s))))
   \<and> url_map_ok (url_map (snd (process web ps s)))"
  using local_https_ok register_ok fetch_also_ok download_from_css_ok process_ok
  by (intro conjI impI) simp_all

lemma marker_run:
  "url_map (snd (download_from_css
      [''https://a/images/marker-icon.png'' \<mapsto> ''P1'',
       ''https://a/images/marker-icon-2x.png'' \<mapsto> ''P2'',
       ''https://a/images/marker-shadow.png'' \<mapsto> ''P3'']
      \<lparr>url_map = [(''https://a/leaflet.css'', ''leaflet.css'')],
       files = [Dir ''leaflet.css'' \<mapsto> ''a{b:url(images/marker-icon.png)}''],
       events = []\<rparr>))
   = [(''https://a/leaflet.css'', ''leaflet.css''),
      (''https://a/images/marker-icon.png'', ''marker-icon.png''),
      (''https://a/images/marker-icon-2x.png'', ''marker-icon-2x.png''),
      (''https://a/images/marker-shadow.png'', ''marker-shadow.png'')]"
  by code_simp

lemma marker_hypotheses:
  "url_map_ok [(''https://a/leaflet.css'', ''leaflet.css'')]"
  "url_to_name ''https://a/images/marker-icon.png'' = Inr ''marker-icon.png''"
  by code_simp+

theorem url_map_invariant_witness:
  "url_map_ok (url_map \<lparr>url_map = [(''https://a/leaflet.css'', ''leaflet.css'')],
       files = [Dir ''leaflet.css'' \<mapsto> ''a{b:url(images/marker-icon.png)}''],
       events = []\<rparr>)
   \<and> url_to_name ''https://a/images/marker-icon.png'' = Inr ''marker-icon.png''
   \<and> url_map_ok (url_map (snd (fetch_also
      [''https://a/images/marker-icon.png'' \<mapsto> ''P1'',
       ''https://a/images/marker-icon-2x.png'' \<mapsto> ''P2'',
       ''https://a/images/marker-shadow.png'' \<mapsto> ''P3'']
      ''https://a/images/marker-icon.png'' ''marker-icon-2x.png''
      \<lparr>url_map = [(''https://a/leaflet.css'', ''leaflet.css'')],
       files = [Dir ''leaflet.css'' \<mapsto> ''a{b:url(images/marker-icon.png)}''],
       events = []\<rparr>)))
   \<and> url_map (snd (download_from_css
      [''https://a/images/marker-icon.png'' \<mapsto> ''P1'',
       ''https://a/images/marker-icon-2x.png'' \<mapsto> ''P2'',
       ''https://a/images/marker-shadow.png'' \<mapsto> ''P3'']
      \<lparr>url_map = [(''https://a/leaflet.css'', ''leaflet.css'')],
       files = [Dir ''leaflet.css'' \<mapsto> ''a{b:url(images/marker-icon.png)}''],
       events = []\<rparr>))
     = [(''https://a/leaflet.css'', ''leaflet.css''),
        (''https://a/images/marker-icon.png'', ''marker-icon.png''),
        (''https://a/images/marker-icon-2x.png'', ''marker-icon-2x.png''),
        (''https://a/images/marker-shadow.png'', ''marker-shadow.png'')]
   \<and> url_map_ok (url_map (snd (download_from_css
      [''https://a/images/marker-icon.png'' \<mapsto> ''P1'',
       ''https://a/images/marker-icon-2x.png'' \<mapsto> ''P2'',
       ''https://a/images/marker-shadow.png'' \<mapsto> ''P3'']
      \<lparr>url_map = [(''https://a/leaflet.css'', ''leaflet.css'')],
       files = [Dir ''leaflet.css'' \<mapsto> ''a{b:url(images/marker-icon.png)}''],
       events = []\<rparr>)))"
proof -
  let ?web = "[''https://a/images/marker-icon.png'' \<mapsto> ''P1'',
       ''https://a/images/marker-icon-2x.png'' \<mapsto> ''P2'',
       ''https://a/images/marker-shadow.png'' \<mapsto> ''P3'']"
  let ?s = "\<lparr>url_map = [(''https://a/leaflet.css'', ''leaflet.css'')],
       files = [Dir ''leaflet.css'' \<mapsto> ''a{b:url(images/marker-icon.png)}''],
       events = []\<rparr>"
  have h1: "url_map_ok (url_map ?s)"
    by (simp add: marker_hypotheses)
  note h2 = marker_hypotheses(2)
  note inv = url_map_invariant [of ?s "[]" ?web "''https://a/images/marker-icon.png''"
      "\<lparr>text' = [], matched = False, name2 = None\<rparr>" "''marker-icon-2x.png''" "[]"]
  from inv h1 h2 have c3: "url_map_ok (url_map (snd (fetch_also ?web
      ''https://a/images/marker-icon.png'' ''marker-icon-2x.png'' ?s)))"
    by (elim conjE) simp
  from inv h1 have c4: "url_map_ok (url_map (snd (download_from_css ?web ?s)))"
    by (elim conjE) simp
  from h1 h2 c3 marker_run c4 show ?thesis
    by (intro conjI)
qed

section \<open>The single pass of \<open>download_from_css\<close>\<close>

lemma scanned_append: "scanned (xs @ ys) = scanned xs @ scanned ys"
  by (induction xs rule: scanned.induct) auto

text \<open>A step that adds events, none of them a scan.\<close>

lemma quiet_refl: "\<exists>new. events s = events s @ new \<and> scanned new = []"
  by simp

lemma quiet_trans:
  assumes "\<exists>new. events b = events a @ new \<and> scanned new = []"
    and "\<exists>new. events c = events b @ new \<and> scanned new = []"
  shows "\<exists>new. events c = events a @ new \<and> scanned new = []"
proof -
  from assms obtain n1 n2 where "events b = events a @ n1" "scanned n1 = []"
    "events c = events b @ n2" "scanned n2 = []"
    by auto
  then have "events c = events a @ (n1 @ n2) \<and> scanned (n1 @ n2) = []"
    by (simp add: scanned_append)
  then show ?thesis by blast
qed

lemma for_each_quiet:
  fixes f :: "'a \<Rightarrow> 'b \<times> state \<Rightarrow> error option \<times> 'b \<times> state"
  assumes "\<And>x fs. \<exists>new. events (snd (snd (f x fs))) = events (snd fs) @ new \<and> scanned new = []"
  shows "\<exists>new. events (snd (snd (for_each f xs fs))) = events (snd fs) @ new \<and> scanned new = []"
proof (induction xs arbitrary: fs)
  case Nil
  then show ?case by simp
next
  case (Cons x xs)
  obtain r fs' where fx: "f x fs = (r, fs')" by (cases "f x fs")
  have q1: "\<exists>new. events (snd fs') = events (snd fs) @ new \<and> scanned new = []"
    using assms [of x fs] fx by simp
  show ?case
  proof (cases r)
    case (Some err)
    with fx q1 show ?thesis by simp
  next
    case None
    have "\<exists>new. events (snd (snd (for_each f xs fs'))) = events (snd fs') @ new \<and> scanned new = []"
      by (rule Cons.IH)
    with q1 have "\<exists>new. events (snd (snd (for_each f xs fs'))) = events (snd fs) @ new \<and> scanned new = []"
      by (rule quiet_trans)
    with fx None show ?thesis by simp
  qed
qed

lemma download_file_quiet:
  "\<exists>new. events (snd (download_file web u n s)) = events s @ new \<and> scanned new = []"
  by (simp add: download_file_def split: option.splits)

lemma fetch_also_quiet:
  "\<exists>new. events (snd (fetch_also web u2 nm s)) = events s @ new \<and> scanned new = []"
proof -
  obtain r s' where d: "download_file web (py_replace ''marker-icon.png'' nm u2) nm s = (r, s')"
    by (cases "download_file web (py_replace ''marker-icon.png'' nm u2) nm s")
  then have "\<exists>new. events s' = events s @ new \<and> scanned new = []"
    using download_file_quiet [of web "py_replace ''marker-icon.png'' nm u2" nm s] by simp
  with d show ?thesis
    by (cases r) (simp_all add: fetch_also_def Let_def)
qed

lemma for_each_state_quiet:
  fixes f :: "'a \<Rightarrow> state \<Rightarrow> error option \<times> state"
  assumes "\<And>x s. \<exists>new. events (snd (f x s)) = events s @ new \<and> scanned new = []"
  shows "\<exists>new. events (snd (for_each f xs s)) = events s @ new \<and> scanned new = []"
proof (induction xs arbitrary: s)
  case Nil
  then show ?case by simp
next
  case (Cons x xs)
  obtain r s' where fx: "f x s = (r, s')" by (cases "f x s")
  have q1: "\<exists>new. events s' = events s @ new \<and> scanned new = []"
    using assms [of x s] fx by simp
  show ?case
  proof (cases r)
    case (Some err)
    with fx q1 show ?thesis by simp
  next
    case None
    have "\<exists>new. events (snd (for_each f xs s')) = events s' @ new \<and> scanned new = []"
      by (rule Cons.IH)
    with q1 have "\<exists>new. events (snd (for_each f xs s')) = events s @ new \<and> scanned new = []"
      by (rule quiet_trans)
    with fx None show ?thesis by simp
  qed
qed

lemma register_quiet:
  "\<exists>new. events (snd (snd (register web u2 (fr, s)))) = events s @ new \<and> scanned new = []"
proof (cases "map_of (url_map s) u2 \<noteq> None")
  case True
  then show ?thesis by (simp add: register_def)
next
  case False
  show ?thesis
  proof (cases "url_to_name u2")
    case (Inl err)
    with False show ?thesis by (simp add: register_def)
  next
    case (Inr n2)
    obtain r s' where d: "download_file web u2 n2 s = (r, s')"
      by (cases "download_file web u2 n2 s")
    then have q1: "\<exists>new. events s' = events s @ new \<and> scanned new = []"
      using download_file_quiet [of web u2 n2 s] by simp
    let ?s2 = "s'\<lparr>url_map := AList.update u2 n2 (url_map s')\<rparr>"
    show ?thesis
    proof (cases r)
      case (Some err)
      with False Inr d q1 show ?thesis by (simp add: register_def Let_def)
    next
      case None
      show ?thesis
      proof (cases "n2 = ''marker-icon.png''")
        case no: False
        with False Inr d None q1 show ?thesis
          by (simp add: register_def Let_def)
      next
        case True
        obtain r3 s3 where fe: "for_each (fetch_also web u2)
                [''marker-icon-2x.png'', ''marker-shadow.png''] ?s2 = (r3, s3)"
          by (cases "for_each (fetch_also web u2)
                [''marker-icon-2x.png'', ''marker-shadow.png''] ?s2")
        have "\<exists>new. events (snd (for_each (fetch_also web u2)
                [''marker-icon-2x.png'', ''marker-shadow.png''] ?s2)) = events ?s2 @ new
                \<and> scanned new = []"
          by (rule for_each_state_quiet) (rule fetch_also_quiet)
        with fe have "\<exists>new. events s3 = events s' @ new \<and> scanned new = []"
          by simp
        with q1 have "\<exists>new. events s3 = events s @ new \<and> scanned new = []"
          by (rule quiet_trans)
        moreover have "snd (snd (register web u2 (fr, s))) = s3"
          using False Inr d None True fe
          by (simp add: register_def Let_def del: for_each.simps)
        ultimately show ?thesis by simp
      qed
    qed
  qed
qed

lemma css_match_quiet:
  "\<exists>new. events (snd (snd (css_match web old_u span fs))) = events (snd fs) @ new
         \<and> scanned new = []"
  using css_match_state [of web old_u span "fst fs" "snd fs"]
    register_quiet [of web _ "fst fs" "snd fs"]
  by auto

lemma css_entry_events:
  "\<exists>new. events (snd (snd (css_entry web (old_u, name) (n2, s)))) = events s @ new
         \<and> scanned new = (if endswith name ''.css'' then [(old_u, name)] else [])"
proof (cases "endswith name ''.css''")
  case False
  then show ?thesis by (simp add: css_entry_def)
next
  case True
  define s1 where "s1 = s\<lparr>events := events s @ [Scan old_u name]\<rparr>"
  have e1: "events s1 = events s @ [Scan old_u name]"
    by (simp add: s1_def)
  show ?thesis
  proof (cases "files s (Dir name)")
    case None
    with True show ?thesis
      by (simp add: css_entry_def Let_def)
  next
    case (Some content)
    have f1: "files s1 (Dir name) = Some content"
      using Some by (simp add: s1_def)
    let ?run = "for_each (css_match web old_u) (rev (CSS_RE_finditer (univ_nl content)))
                  (\<lparr>text' = univ_nl content, matched = False, name2 = n2\<rparr>, s1)"
    obtain r fr s' where run: "?run = (r, fr, s')" by (cases ?run)
    have "\<exists>new. events (snd (snd ?run))
            = events (snd (\<lparr>text' = univ_nl content, matched = False, name2 = n2\<rparr>, s1)) @ new
            \<and> scanned new = []"
      by (rule for_each_quiet) (rule css_match_quiet)
    with run obtain n1 where n1: "events s' = events s1 @ n1" "scanned n1 = []"
      by auto
    have "snd (snd (css_entry web (old_u, name) (n2, s))) = s'
          \<or> snd (snd (css_entry web (old_u, name) (n2, s)))
              = s'\<lparr>files := (files s')(Dir name \<mapsto> text' fr),
                    events := events s' @ [Write (Dir name)]\<rparr>"
      using True f1 run
      by (cases r) (simp_all add: css_entry_def Let_def s1_def [symmetric])
    then show ?thesis
    proof
      assume "snd (snd (css_entry web (old_u, name) (n2, s))) = s'"
      then have "events (snd (snd (css_entry web (old_u, name) (n2, s))))
                   = events s @ (Scan old_u name # n1)
                 \<and> scanned (Scan old_u name # n1) = [(old_u, name)]"
        using n1 e1 by simp
      with True show ?thesis by (metis (full_types))
    next
      assume "snd (snd (css_entry web (old_u, name) (n2, s)))
              = s'\<lparr>files := (files s')(Dir name \<mapsto> text' fr),
                    events := events s' @ [Write (Dir name)]\<rparr>"
      then have "events (snd (snd (css_entry web (old_u, name) (n2, s))))
                   = events s @ (Scan old_u name # n1 @ [Write (Dir name)])
                 \<and> scanned (Scan old_u name # n1 @ [Write (Dir name)]) = [(old_u, name)]"
        using n1 e1 by (simp add: scanned_append)
      with True show ?thesis by (metis (full_types))
    qed
  qed
qed

lemma css_entries_Cons:
  "css_entries ((old_u, name) # xs)
     = (if endswith name ''.css'' then [(old_u, name)] else []) @ css_entries xs"
  by (simp add: css_entries_def)

lemma for_each_css_entry_events:
  "\<exists>new. events (snd (snd (for_each (css_entry web) xs ns))) = events (snd ns) @ new
         \<and> prefix (scanned new) (css_entries xs)
         \<and> (fst (for_each (css_entry web) xs ns) = None \<longrightarrow> scanned new = css_entries xs)"
proof (induction xs arbitrary: ns)
  case Nil
  then show ?case by (simp add: css_entries_def)
next
  case (Cons x xs)
  obtain old_u name where x: "x = (old_u, name)" by (cases x)
  obtain n2 s where ns: "ns = (n2, s)" by (cases ns)
  obtain r ns' where st: "css_entry web (old_u, name) (n2, s) = (r, ns')"
    by (cases "css_entry web (old_u, name) (n2, s)")
  let ?one = "if endswith name ''.css'' then [(old_u, name)] else []"
  from css_entry_events [of web old_u name n2 s] st obtain n1 where
    n1: "events (snd ns') = events s @ n1" "scanned n1 = ?one"
    by auto
  show ?case
  proof (cases r)
    case (Some err)
    have "prefix (scanned n1) (css_entries (x # xs))"
      unfolding x css_entries_Cons n1(2) by simp
    with Some st x ns n1(1) show ?thesis by auto
  next
    case None
    from Cons.IH [of ns'] obtain m where
      m: "events (snd (snd (for_each (css_entry web) xs ns'))) = events (snd ns') @ m"
         "prefix (scanned m) (css_entries xs)"
         "fst (for_each (css_entry web) xs ns') = None \<longrightarrow> scanned m = css_entries xs"
      by auto
    have run: "for_each (css_entry web) (x # xs) ns = for_each (css_entry web) xs ns'"
      using None st x ns by simp
    have 1: "events (snd (snd (for_each (css_entry web) (x # xs) ns))) = events (snd ns) @ (n1 @ m)"
      using run m(1) n1(1) ns by simp
    have 2: "prefix (scanned (n1 @ m)) (css_entries (x # xs))"
      unfolding x css_entries_Cons scanned_append n1(2) using m(2) by simp
    have 3: "fst (for_each (css_entry web) (x # xs) ns) = None
               \<longrightarrow> scanned (n1 @ m) = css_entries (x # xs)"
    proof
      assume "fst (for_each (css_entry web) (x # xs) ns) = None"
      then have "fst (for_each (css_entry web) xs ns') = None"
        by (simp only: run)
      with m(3) have "scanned m = css_entries xs" by simp
      then show "scanned (n1 @ m) = css_entries (x # xs)"
        unfolding x css_entries_Cons scanned_append n1(2) by simp
    qed
    show ?thesis
      by (rule exI [of _ "n1 @ m"]) (intro conjI 1 2 3)
  qed
qed

text \<open>
  C6, as the code has it. The CSS entries that a run of \<open>download_from_css\<close> scans are
  entries of the \<open>url_map\<close> as it was when the run started, in their order: a prefix of
  them when the run raises, all of them when it returns. An entry that the run itself
  adds to the map is therefore not scanned by that run, and every file that the run
  opens for scanning is the file named by an entry of the starting map (so a file
  downloaded in the run is scanned in it only under the local name of such an entry).
\<close>

theorem download_from_css_single_pass:
  "\<exists>new. events (snd (download_from_css web s)) = events s @ new
         \<and> prefix (scanned new) (css_entries (url_map s))
         \<and> (fst (download_from_css web s) = None \<longrightarrow> scanned new = css_entries (url_map s))
         \<and> (\<forall>(u, n) \<in> set (scanned new). (u, n) \<in> set (url_map s) \<and> endswith n ''.css'')"
proof -
  obtain r n2 s' where run: "for_each (css_entry web) (url_map s) (None, s) = (r, n2, s')"
    by (cases "for_each (css_entry web) (url_map s) (None, s)")
  then have d: "download_from_css web s = (r, s')"
    by (simp add: download_from_css_def)
  from for_each_css_entry_events [of web "url_map s" "(None, s)"] run
  obtain new where e: "events (snd (download_from_css web s)) = events s @ new"
    and p: "prefix (scanned new) (css_entries (url_map s))"
    and a: "fst (download_from_css web s) = None \<longrightarrow> scanned new = css_entries (url_map s)"
    unfolding d by auto
  from p have "set (scanned new) \<subseteq> set (css_entries (url_map s))"
    by (rule set_mono_prefix)
  then have m: "\<forall>(u, n) \<in> set (scanned new). (u, n) \<in> set (url_map s) \<and> endswith n ''.css''"
    by (auto simp: css_entries_def)
  show ?thesis
    by (rule exI [of _ new]) (intro conjI e p a m)
qed

lemma hashed_name_not_marker: "sha1_hex u @ sfx \<noteq> ''marker-icon.png''"
proof
  assume "sha1_hex u @ sfx = ''marker-icon.png''"
  then have "length (sha1_hex u @ sfx) = length ''marker-icon.png''"
    by (rule arg_cong)
  then show False by simp
qed

lemma hashed_name_not_leaflet: "sha1_hex u @ sfx \<noteq> ''leaflet.css''"
proof
  assume "sha1_hex u @ sfx = ''leaflet.css''"
  then have "length (sha1_hex u @ sfx) = length ''leaflet.css''"
    by (rule arg_cong)
  then show False by simp
qed

lemma nested_facts:
  "univ_nl ''@import url(theme.css);'' = ''@import url(theme.css);''"
  "CSS_RE_finditer ''@import url(theme.css);'' = [(12, 21)]"
  "css_reference ''@import url(theme.css);'' (12, 21) = (12, 21, ''theme.css'')"
  "skipped ''theme.css'' = False"
  "startswith ''theme.css'' ''//'' = False"
  "url_relative ''https://a/leaflet.css'' ''theme.css'' = ''https://a/theme.css''"
  "endswith ''leaflet.css'' ''.css'' = True"
  by code_simp+

lemma nested_name:
  "url_to_name ''https://a/theme.css'' = Inr (sha1_hex ''https://a/theme.css'' @ ''.css'')"
proof -
  have n: "normalized ''https://a/theme.css'' = ''https://a/theme.css''"
    by (simp add: normalized_def startswith_def)
  have s: "startswith ''https://a/theme.css'' ''https://''"
    by (simp add: startswith_def)
  have w: "\<not> well_known ''https://a/theme.css''"
    by (simp add: well_known_def endswith_def)
  have p: "path_suffix ''https://a/theme.css'' = ''.css''"
    by (simp add: path_suffix_def path_name_def py_rfind_def startswith_def)
  show ?thesis
    by (simp add: url_to_name_unfold n s w p)
qed

lemma nested_run:
  "download_from_css [''https://a/theme.css'' \<mapsto> ''b{c:url(x.png)}'']
     \<lparr>url_map = [(''https://a/leaflet.css'', ''leaflet.css'')],
      files = [Dir ''leaflet.css'' \<mapsto> ''@import url(theme.css);''],
      events = []\<rparr>
   = (None,
      \<lparr>url_map = [(''https://a/leaflet.css'', ''leaflet.css''),
                  (''https://a/theme.css'', sha1_hex ''https://a/theme.css'' @ ''.css'')],
       files = [Dir (sha1_hex ''https://a/theme.css'' @ ''.css'') \<mapsto> ''b{c:url(x.png)}'',
                Dir ''leaflet.css'' \<mapsto> ''@import url(__mystery://placeholder__/''
                    @ sha1_hex ''https://a/theme.css'' @ ''.css);''],
       events = [Scan ''https://a/leaflet.css'' ''leaflet.css'',
                 Fetch ''https://a/theme.css'' (sha1_hex ''https://a/theme.css'' @ ''.css''),
                 Write (Dir ''leaflet.css'')]\<rparr>)"
  apply (simp only: download_from_css_def state.simps for_each.simps css_entry_def prod.case
      nested_facts if_True Let_def)
  apply (simp add: nested_facts css_match_def register_def nested_name download_file_def
      hashed_name_not_marker hashed_name_not_leaflet PLACEHOLDER_def fun_upd_twist Let_def)
  done

theorem download_from_css_single_pass_witness:
  "fst (download_from_css [''https://a/theme.css'' \<mapsto> ''b{c:url(x.png)}'']
     \<lparr>url_map = [(''https://a/leaflet.css'', ''leaflet.css'')],
      files = [Dir ''leaflet.css'' \<mapsto> ''@import url(theme.css);''],
      events = []\<rparr>) = None
   \<and> scanned (events (snd (download_from_css [''https://a/theme.css'' \<mapsto> ''b{c:url(x.png)}'']
     \<lparr>url_map = [(''https://a/leaflet.css'', ''leaflet.css'')],
      files = [Dir ''leaflet.css'' \<mapsto> ''@import url(theme.css);''],
      events = []\<rparr>)))
     = [(''https://a/leaflet.css'', ''leaflet.css'')]
   \<and> css_entries (url_map (snd (download_from_css [''https://a/theme.css'' \<mapsto> ''b{c:url(x.png)}'']
     \<lparr>url_map = [(''https://a/leaflet.css'', ''leaflet.css'')],
      files = [Dir ''leaflet.css'' \<mapsto> ''@import url(theme.css);''],
      events = []\<rparr>)))
     = [(''https://a/leaflet.css'', ''leaflet.css''),
        (''https://a/theme.css'', sha1_hex ''https://a/theme.css'' @ ''.css'')]
   \<and> files (snd (download_from_css [''https://a/theme.css'' \<mapsto> ''b{c:url(x.png)}'']
     \<lparr>url_map = [(''https://a/leaflet.css'', ''leaflet.css'')],
      files = [Dir ''leaflet.css'' \<mapsto> ''@import url(theme.css);''],
      events = []\<rparr>)) (Dir (sha1_hex ''https://a/theme.css'' @ ''.css''))
     = Some ''b{c:url(x.png)}''"
proof -
  let ?web = "[''https://a/theme.css'' \<mapsto> ''b{c:url(x.png)}'']"
  let ?s = "\<lparr>url_map = [(''https://a/leaflet.css'', ''leaflet.css'')],
      files = [Dir ''leaflet.css'' \<mapsto> ''@import url(theme.css);''],
      events = []\<rparr>"
  have ok: "fst (download_from_css ?web ?s) = None"
    by (simp only: nested_run fst_conv)
  have en: "css_entries [(''https://a/leaflet.css'', ''leaflet.css'')]
      = [(''https://a/leaflet.css'', ''leaflet.css'')]"
    by (simp add: css_entries_def nested_facts)
  from download_from_css_single_pass [of ?web ?s] ok obtain new where
    "events (snd (download_from_css ?web ?s)) = events ?s @ new"
    and "scanned new = css_entries (url_map ?s)"
    by auto
  then have sc: "scanned (events (snd (download_from_css ?web ?s)))
      = [(''https://a/leaflet.css'', ''leaflet.css'')]"
    by (simp add: en)
  have ce: "css_entries (url_map (snd (download_from_css ?web ?s)))
      = [(''https://a/leaflet.css'', ''leaflet.css''),
         (''https://a/theme.css'', sha1_hex ''https://a/theme.css'' @ ''.css'')]"
    by (simp add: nested_run css_entries_def nested_facts endswith_append)
  have fl: "files (snd (download_from_css ?web ?s)) (Dir (sha1_hex ''https://a/theme.css'' @ ''.css''))
      = Some ''b{c:url(x.png)}''"
    by (simp add: nested_run hashed_name_not_leaflet)
  from ok sc ce fl show ?thesis
    by (intro conjI)
qed

text \<open>
  The claim as it was stated fails for the file: the stylesheet of the first entry
  imports \<open>https://a/theme/myleaflet.css\<close>, which is not in the map when the run starts;
  the run downloads it under the local name \<open>myleaflet.css\<close>, the name of the second
  entry, registers it, and then, for the second entry, scans and rewrites the file it
  has just downloaded.
\<close>

theorem download_from_css_collision_counterexample:
  "map_of [(''https://a/leaflet.css'', ''leaflet.css''),
           (''https://b/myleaflet.css'', ''myleaflet.css'')] ''https://a/theme/myleaflet.css'' = None
   \<and> fst (download_from_css
       [''https://a/theme/myleaflet.css'' \<mapsto> ''p{q:url(marker-shadow.png)}'',
        ''https://b/marker-shadow.png'' \<mapsto> ''PNG'']
       \<lparr>url_map = [(''https://a/leaflet.css'', ''leaflet.css''),
                   (''https://b/myleaflet.css'', ''myleaflet.css'')],
        files = [Dir ''leaflet.css'' \<mapsto> ''@import url(theme/myleaflet.css);'',
                 Dir ''myleaflet.css'' \<mapsto> ''x{}''],
        events = []\<rparr>) = None
   \<and> events (snd (download_from_css
       [''https://a/theme/myleaflet.css'' \<mapsto> ''p{q:url(marker-shadow.png)}'',
        ''https://b/marker-shadow.png'' \<mapsto> ''PNG'']
       \<lparr>url_map = [(''https://a/leaflet.css'', ''leaflet.css''),
                   (''https://b/myleaflet.css'', ''myleaflet.css'')],
        files = [Dir ''leaflet.css'' \<mapsto> ''@import url(theme/myleaflet.css);'',
                 Dir ''myleaflet.css'' \<mapsto> ''x{}''],
        events = []\<rparr>))
     = [Scan ''https://a/leaflet.css'' ''leaflet.css'',
        Fetch ''https://a/theme/myleaflet.css'' ''myleaflet.css'',
        Write (Dir ''leaflet.css''),
        Scan ''https://b/myleaflet.css'' ''myleaflet.css'',
        Fetch ''https://b/marker-shadow.png'' ''marker-shadow.png'',
        Write (Dir ''myleaflet.css'')]
   \<and> files (snd (download_from_css
       [''https://a/theme/myleaflet.css'' \<mapsto> ''p{q:url(marker-shadow.png)}'',
        ''https://b/marker-shadow.png'' \<mapsto> ''PNG'']
       \<lparr>url_map = [(''https://a/leaflet.css'', ''leaflet.css''),
                   (''https://b/myleaflet.css'', ''myleaflet.css'')],
        files = [Dir ''leaflet.css'' \<mapsto> ''@import url(theme/myleaflet.css);'',
                 Dir ''myleaflet.css'' \<mapsto> ''x{}''],
        events = []\<rparr>)) (Dir ''myleaflet.css'')
     = Some ''p{q:url(__mystery://placeholder__/marker-shadow.png)}''
   \<and> map_of (url_map (snd (download_from_css
       [''https://a/theme/myleaflet.css'' \<mapsto> ''p{q:url(marker-shadow.png)}'',
        ''https://b/marker-shadow.png'' \<mapsto> ''PNG'']
       \<lparr>url_map = [(''https://a/leaflet.css'', ''leaflet.css''),
                   (''https://b/myleaflet.css'', ''myleaflet.css'')],
        files = [Dir ''leaflet.css'' \<mapsto> ''@import url(theme/myleaflet.css);'',
                 Dir ''myleaflet.css'' \<mapsto> ''x{}''],
        events = []\<rparr>))) ''https://a/theme/myleaflet.css''
     = Some ''myleaflet.css''"
  by code_simp

section \<open>Rewriting a reference to a URL that is already in the \<open>url_map\<close>\<close>

text \<open>
  C1 says that each \<open>url()\<close> reference that is not skipped is rewritten to the placeholder
  and the name of its own resolved URL, also when that URL is already in the
  \<open>url_map\<close>. The code assigns \<open>name2\<close> only when the URL is new. Here the map already
  holds the URL of \<open>marker-icon.png\<close>: the reference to \<open>marker-shadow.png\<close>, processed
  first, sets \<open>name2\<close>, and the reference to \<open>marker-icon.png\<close> is then rewritten to the
  name of the shadow image; where no earlier reference has set \<open>name2\<close>, the run raises
  \<open>UnboundLocalError\<close> and the file is not rewritten.
\<close>

theorem download_from_css_stale_name:
  "url_to_name ''https://a/marker-icon.png'' = Inr ''marker-icon.png''
   \<and> fst (download_from_css [''https://a/marker-shadow.png'' \<mapsto> ''PNG'']
       \<lparr>url_map = [(''https://a/leaflet.css'', ''leaflet.css''),
                   (''https://a/marker-icon.png'', ''marker-icon.png'')],
        files = [Dir ''leaflet.css'' \<mapsto>
                   ''a{b:url(marker-icon.png)} c{d:url(marker-shadow.png)}''],
        events = []\<rparr>) = None
   \<and> files (snd (download_from_css [''https://a/marker-shadow.png'' \<mapsto> ''PNG'']
       \<lparr>url_map = [(''https://a/leaflet.css'', ''leaflet.css''),
                   (''https://a/marker-icon.png'', ''marker-icon.png'')],
        files = [Dir ''leaflet.css'' \<mapsto>
                   ''a{b:url(marker-icon.png)} c{d:url(marker-shadow.png)}''],
        events = []\<rparr>)) (Dir ''leaflet.css'')
     = Some (''a{b:url(__mystery://placeholder__/marker-shadow.png)} ''
             @ ''c{d:url(__mystery://placeholder__/marker-shadow.png)}'')
   \<and> fst (download_from_css Map.empty
       \<lparr>url_map = [(''https://a/leaflet.css'', ''leaflet.css''),
                   (''https://a/marker-icon.png'', ''marker-icon.png'')],
        files = [Dir ''leaflet.css'' \<mapsto> ''a{b:url(marker-icon.png)}''],
        events = []\<rparr>) = Some UnboundLocalError
   \<and> files (snd (download_from_css Map.empty
       \<lparr>url_map = [(''https://a/leaflet.css'', ''leaflet.css''),
                   (''https://a/marker-icon.png'', ''marker-icon.png'')],
        files = [Dir ''leaflet.css'' \<mapsto> ''a{b:url(marker-icon.png)}''],
        events = []\<rparr>)) (Dir ''leaflet.css'')
     = Some ''a{b:url(marker-icon.png)}''"
  by code_simp

section \<open>Running \<open>replace\<close> twice\<close>

lemma occurs_in_through:
  assumes "c \<notin> set p"
  shows "occurs_in p (a @ c # b) = (occurs_in p a \<or> occurs_in p b)"
proof
  assume "occurs_in p a \<or> occurs_in p b"
  then show "occurs_in p (a @ c # b)"
  proof
    assume "occurs_in p a"
    then obtain x y where "a = x @ p @ y" by (auto simp: occurs_in_def)
    then have "a @ c # b = x @ p @ (y @ c # b)" by simp
    then show ?thesis unfolding occurs_in_def by blast
  next
    assume "occurs_in p b"
    then obtain x y where "b = x @ p @ y" by (auto simp: occurs_in_def)
    then have "a @ c # b = (a @ c # x) @ p @ y" by simp
    then show ?thesis unfolding occurs_in_def by blast
  qed
next
  assume "occurs_in p (a @ c # b)"
  then obtain x y where xy: "a @ c # b = x @ p @ y" by (auto simp: occurs_in_def)
  then consider us where "a = x @ us" "us @ c # b = p @ y"
    | us where "a @ us = x" "c # b = us @ p @ y"
    by (auto simp: append_eq_append_conv2)
  then show "occurs_in p a \<or> occurs_in p b"
  proof cases
    case 1
    from 1(2) consider vs where "us = p @ vs" | vs where "us @ vs = p" "c # b = vs @ y"
      by (auto simp: append_eq_append_conv2)
    then show ?thesis
    proof cases
      case 1
      with \<open>a = x @ us\<close> have "a = x @ p @ vs" by simp
      then have "occurs_in p a" unfolding occurs_in_def by blast
      then show ?thesis ..
    next
      case 2
      show ?thesis
      proof (cases vs)
        case Nil
        with 2 \<open>a = x @ us\<close> have "a = x @ p @ []" by simp
        then have "occurs_in p a" unfolding occurs_in_def by blast
        then show ?thesis ..
      next
        case (Cons v vs')
        with 2 have "c \<in> set p" by auto
        with assms show ?thesis by simp
      qed
    qed
  next
    case 2
    show ?thesis
    proof (cases us)
      case Nil
      with 2 have cb: "c # b = p @ y" by simp
      show ?thesis
      proof (cases p)
        case Nil
        then have "a = a @ p @ []" by simp
        then have "occurs_in p a" unfolding occurs_in_def by blast
        then show ?thesis ..
      next
        case (Cons q p')
        with cb have "c \<in> set p" by auto
        with assms show ?thesis by simp
      qed
    next
      case (Cons u us')
      with 2 have "b = us' @ p @ y" by simp
      then have "occurs_in p b" unfolding occurs_in_def by blast
      then show ?thesis ..
    qed
  qed
qed

lemma occurs_in_longer: "occurs_in (p @ q) t \<Longrightarrow> occurs_in p t"
proof -
  assume "occurs_in (p @ q) t"
  then obtain x y where "t = x @ (p @ q) @ y" by (auto simp: occurs_in_def)
  then have "t = x @ p @ (q @ y)" by simp
  then show ?thesis unfolding occurs_in_def by blast
qed

lemma occurs_in_right: "occurs_in p t \<Longrightarrow> occurs_in p (a @ t)"
proof -
  assume "occurs_in p t"
  then obtain x y where "t = x @ p @ y" by (auto simp: occurs_in_def)
  then have "a @ t = (a @ x) @ p @ y" by simp
  then show ?thesis unfolding occurs_in_def by blast
qed

lemma py_replace_absent:
  "old \<noteq> [] \<Longrightarrow> \<not> occurs_in old t \<Longrightarrow> py_replace old new t = t"
proof (induction t)
  case Nil
  then show ?case by simp
next
  case (Cons x t)
  have n: "\<not> startswith (x # t) old"
  proof
    assume "startswith (x # t) old"
    then obtain r where "x # t = [] @ old @ r"
      by (auto simp: startswith_iff)
    then have "occurs_in old (x # t)" unfolding occurs_in_def by blast
    with Cons.prems show False by simp
  qed
  with Cons.prems have "\<not> occurs_in old t"
    by (simp add: occurs_in_Cons)
  with Cons n show ?case
    by (simp add: py_replace_nomatch)
qed

lemma delimiter_not_in_marker:
  "delimiter c \<Longrightarrow> c \<notin> set PLACEHOLDER" "delimiter c \<Longrightarrow> c \<notin> set (PLACEHOLDER @ ''/'')"
  by (auto simp: delimiter_def is_quote_def PLACEHOLDER_def)

lemma marker_nonempty: "PLACEHOLDER @ ''/'' \<noteq> []"
  by simp

lemma first_pass_text_replaced:
  assumes "first_pass_text url_prefix t"
  shows "\<not> occurs_in PLACEHOLDER (py_replace (PLACEHOLDER @ ''/'') url_prefix t)"
  using assms
proof (induction rule: first_pass_text.induct)
  case (plain t)
  then have "\<not> occurs_in (PLACEHOLDER @ ''/'') t"
    using occurs_in_longer by blast
  then have "py_replace (PLACEHOLDER @ ''/'') url_prefix t = t"
    using marker_nonempty by (rule py_replace_absent [rotated])
  with plain show ?case by simp
next
  case (reference a c d name b)
  let ?M = "PLACEHOLDER @ ''/''"
  let ?R = "py_replace ?M url_prefix"
  have a: "?R a = a"
    using marker_nonempty reference.hyps(1) occurs_in_longer
    by (intro py_replace_absent) blast+
  have "\<not> occurs_in PLACEHOLDER name"
    using reference.hyps(4) occurs_in_right by blast
  then have n: "?R name = name"
    using marker_nonempty occurs_in_longer by (intro py_replace_absent) blast+
  have "?R (a @ c # (?M @ (name @ d # b))) = ?R a @ c # ?R (?M @ (name @ d # b))"
    using marker_nonempty delimiter_not_in_marker(2) [OF reference.hyps(2)]
    by (rule py_replace_through)
  also have "?R (?M @ (name @ d # b)) = url_prefix @ ?R (name @ d # b)"
    using marker_nonempty by (rule py_replace_match)
  also have "?R (name @ d # b) = ?R name @ d # ?R b"
    using marker_nonempty delimiter_not_in_marker(2) [OF reference.hyps(3)]
    by (rule py_replace_through)
  finally have r: "?R (a @ c # ?M @ name @ d # b) = a @ c # (url_prefix @ name) @ d # ?R b"
    by (simp add: a n)
  have "\<not> occurs_in PLACEHOLDER ((url_prefix @ name) @ d # ?R b)"
    using reference.hyps(4) reference.IH
    by (simp only: occurs_in_through [OF delimiter_not_in_marker(1) [OF reference.hyps(3)]]) simp
  then have "\<not> occurs_in PLACEHOLDER (a @ c # (url_prefix @ name) @ d # ?R b)"
    using reference.hyps(1)
    by (simp only: occurs_in_through [OF delimiter_not_in_marker(1) [OF reference.hyps(2)]]) simp
  with r show ?case
    by simp
qed

lemma univ_nl_no_cr: "CHR 0x0D \<notin> set (univ_nl t)"
  by (induction t rule: univ_nl.induct) auto

lemma univ_nl_id: "CHR 0x0D \<notin> set t \<Longrightarrow> univ_nl t = t"
  by (induction t rule: univ_nl.induct) auto

lemma set_py_replace:
  assumes "old \<noteq> []"
  shows "set (py_replace old new t) \<subseteq> set new \<union> set t"
proof (induction t rule: length_induct)
  case (1 t)
  show ?case
  proof (cases "startswith t old")
    case True
    then obtain r where t: "t = old @ r"
      by (auto simp: startswith_iff)
    with assms have "length r < length t" by simp
    with 1 have "set (py_replace old new r) \<subseteq> set new \<union> set r" by blast
    moreover have "py_replace old new (old @ r) = new @ py_replace old new r"
      using assms by (rule py_replace_match)
    ultimately show ?thesis
      by (auto simp: t)
  next
    case False
    show ?thesis
    proof (cases t)
      case Nil
      with assms show ?thesis by simp
    next
      case (Cons x t')
      then have "length t' < length t" by simp
      with 1 have "set (py_replace old new t') \<subseteq> set new \<union> set t'" by blast
      moreover have "py_replace old new (x # t') = x # py_replace old new t'"
        using assms False Cons by (simp add: py_replace_nomatch)
      ultimately show ?thesis
        by (auto simp: Cons)
    qed
  qed
qed

lemma replace_file_cleans:
  assumes "files s p = Some content" and "first_pass_text url_prefix (univ_nl content)"
    and "CHR 0x0D \<notin> set url_prefix"
  shows "\<exists>s'. replace_file url_prefix p s = (None, s')
           \<and> (\<exists>c. files s' p = Some c \<and> \<not> occurs_in PLACEHOLDER (univ_nl c))
           \<and> (\<forall>q. q \<noteq> p \<longrightarrow> files s' q = files s q)"
proof (cases "0 \<le> py_find (univ_nl content) PLACEHOLDER")
  case False
  then have "\<not> occurs_in PLACEHOLDER (univ_nl content)"
    by (simp add: py_find_nonneg_iff)
  with assms(1) False show ?thesis
    by (simp add: replace_file_def)
next
  case True
  let ?out = "py_replace (PLACEHOLDER @ ''/'') url_prefix (univ_nl content)"
  have "set ?out \<subseteq> set url_prefix \<union> set (univ_nl content)"
    by (rule set_py_replace) simp
  with assms(3) have "CHR 0x0D \<notin> set ?out"
    using univ_nl_no_cr [of content] by blast
  then have "univ_nl ?out = ?out"
    by (rule univ_nl_id)
  moreover have "\<not> occurs_in PLACEHOLDER ?out"
    using assms(2) by (rule first_pass_text_replaced)
  ultimately have "\<not> occurs_in PLACEHOLDER (univ_nl ?out)"
    by simp
  with assms(1) True show ?thesis
    by (simp add: replace_file_def Let_def)
qed

lemma replace_file_frame:
  "q \<noteq> p \<Longrightarrow> files (snd (replace_file url_prefix p s)) q = files s q"
  by (simp add: replace_file_def Let_def split: option.splits)

lemma replace_frame:
  "q \<notin> set ps \<Longrightarrow> files (snd (replace ps url_prefix s)) q = files s q"
proof (induction ps arbitrary: s)
  case Nil
  then show ?case by (simp add: replace_def)
next
  case (Cons p ps)
  obtain r s' where st: "replace_file url_prefix p s = (r, s')"
    by (cases "replace_file url_prefix p s")
  from Cons.prems have "q \<noteq> p" by auto
  then have f: "files s' q = files s q"
    using replace_file_frame [of q p url_prefix s] st by simp
  show ?case
  proof (cases r)
    case (Some err)
    with st f show ?thesis by (simp add: replace_def)
  next
    case None
    from Cons.prems have "q \<notin> set ps" by simp
    then have "files (snd (replace ps url_prefix s')) q = files s' q"
      by (rule Cons.IH)
    with None st f show ?thesis by (simp add: replace_def)
  qed
qed

lemma replace_cleans:
  assumes "\<forall>p \<in> set ps. \<exists>c. files s p = Some c \<and> first_pass_text url_prefix (univ_nl c)"
    and "CHR 0x0D \<notin> set url_prefix"
  shows "fst (replace ps url_prefix s) = None
         \<and> (\<forall>p \<in> set ps. \<exists>c. files (snd (replace ps url_prefix s)) p = Some c
               \<and> \<not> occurs_in PLACEHOLDER (univ_nl c))"
  using assms(1)
proof (induction ps arbitrary: s)
  case Nil
  then show ?case by (simp add: replace_def)
next
  case (Cons q qs)
  from Cons.prems obtain content where c: "files s q = Some content"
    and t: "first_pass_text url_prefix (univ_nl content)"
    by auto
  from replace_file_cleans [OF c t assms(2)] obtain s' where
    st: "replace_file url_prefix q s = (None, s')"
    and cl: "\<exists>c. files s' q = Some c \<and> \<not> occurs_in PLACEHOLDER (univ_nl c)"
    and fr: "\<forall>p. p \<noteq> q \<longrightarrow> files s' p = files s p"
    by blast
  have good: "\<forall>p \<in> set qs. \<exists>c. files s' p = Some c \<and> first_pass_text url_prefix (univ_nl c)"
  proof
    fix p
    assume p: "p \<in> set qs"
    show "\<exists>c. files s' p = Some c \<and> first_pass_text url_prefix (univ_nl c)"
    proof (cases "p = q")
      case True
      with cl show ?thesis
        using first_pass_text.plain by blast
    next
      case False
      with fr have "files s' p = files s p" by simp
      with Cons.prems p show ?thesis by simp
    qed
  qed
  from Cons.IH [OF good] have ih1: "fst (replace qs url_prefix s') = None"
    and ih2: "\<forall>p \<in> set qs. \<exists>c. files (snd (replace qs url_prefix s')) p = Some c
               \<and> \<not> occurs_in PLACEHOLDER (univ_nl c)"
    by simp_all
  have run: "replace (q # qs) url_prefix s = replace qs url_prefix s'"
    using st by (simp add: replace_def)
  have "\<exists>c. files (snd (replace qs url_prefix s')) q = Some c
               \<and> \<not> occurs_in PLACEHOLDER (univ_nl c)"
  proof (cases "q \<in> set qs")
    case True
    with ih2 show ?thesis by simp
  next
    case False
    then have "files (snd (replace qs url_prefix s')) q = files s' q"
      by (rule replace_frame)
    with cl show ?thesis by simp
  qed
  with ih1 ih2 show ?case
    unfolding run by simp
qed

text \<open>
  C8. A file whose text holds no occurrence of the placeholder is not written and keeps
  its text. Where the files are as the first pass leaves them (each placeholder stands
  directly after a quote or a parenthesis and is followed by \<open>/\<close> and a name up to the
  next quote or parenthesis, the text around these references holds no placeholder,
  and neither does the prefix followed by a name), a run of \<open>replace\<close> raises nothing
  and leaves no occurrence of the placeholder in any of the files, so that a second run
  over its output, with any prefix, finds none and leaves the whole state as it was:
  no file is written and no text changes.
\<close>

theorem replace_idempotent:
  "((\<forall>p \<in> set ps. \<exists>c. files s p = Some c \<and> \<not> occurs_in PLACEHOLDER (univ_nl c))
      \<longrightarrow> replace ps url_prefix s = (None, s))
   \<and> ((\<forall>p \<in> set ps. \<exists>c. files s p = Some c \<and> first_pass_text url_prefix (univ_nl c))
        \<and> CHR 0x0D \<notin> set url_prefix
      \<longrightarrow> fst (replace ps url_prefix s) = None
          \<and> (\<forall>p \<in> set ps. \<exists>c. files (snd (replace ps url_prefix s)) p = Some c
                \<and> \<not> occurs_in PLACEHOLDER (univ_nl c))
          \<and> replace ps url_prefix2 (snd (replace ps url_prefix s))
              = (None, snd (replace ps url_prefix s)))"
proof (intro conjI impI)
  assume "\<forall>p \<in> set ps. \<exists>c. files s p = Some c \<and> \<not> occurs_in PLACEHOLDER (univ_nl c)"
  then show "replace ps url_prefix s = (None, s)"
    by (rule replace_without_placeholder)
next
  assume a: "(\<forall>p \<in> set ps. \<exists>c. files s p = Some c \<and> first_pass_text url_prefix (univ_nl c))
        \<and> CHR 0x0D \<notin> set url_prefix"
  then have cl: "fst (replace ps url_prefix s) = None
         \<and> (\<forall>p \<in> set ps. \<exists>c. files (snd (replace ps url_prefix s)) p = Some c
               \<and> \<not> occurs_in PLACEHOLDER (univ_nl c))"
    by (intro replace_cleans) simp_all
  then show "fst (replace ps url_prefix s) = None" ..
  from cl show c2: "\<forall>p \<in> set ps. \<exists>c. files (snd (replace ps url_prefix s)) p = Some c
               \<and> \<not> occurs_in PLACEHOLDER (univ_nl c)" ..
  then show "replace ps url_prefix2 (snd (replace ps url_prefix s))
               = (None, snd (replace ps url_prefix s))"
    by (rule replace_without_placeholder)
qed

text \<open>
  A line that the scanner rewrites is such a text, when the line it read holds no
  placeholder and the prefix followed by the name of its URL holds none.
\<close>

lemma local_https_first_pass_text:
  assumes "URL_RE_search line = Some (b, e)"
    and "\<not> transcript line"
    and "startswith (slice line (b + 1) (e - 1)) ''https://''"
    and "\<not> occurs_in PLACEHOLDER line"
    and "\<forall>name. url_to_name (slice line (b + 1) (e - 1)) = Inr name
           \<longrightarrow> \<not> occurs_in PLACEHOLDER (url_prefix @ name)"
  shows "\<exists>line'. fst (local_https line s) = Inr line' \<and> first_pass_text url_prefix line'"
proof -
  from local_https_run [OF assms(1-3), of s] obtain pre q1 url q2 post name where
    line: "line = pre @ q1 # url @ q2 # post" and q: "is_quote q1" "is_quote q2"
    and u: "url = slice line (b + 1) (e - 1)" and n: "url_to_name url = Inr name"
    and run: "local_https line s =
               (Inr (pre @ q1 # PLACEHOLDER @ ''/'' @ name @ q2 # post),
                s\<lparr>url_map := AList.update url name (url_map s)\<rparr>)"
    by auto
  have d: "delimiter q1" "delimiter q2"
    using q by (simp_all add: delimiter_def)
  from assms(4) have "\<not> occurs_in PLACEHOLDER (pre @ q1 # (url @ q2 # post))"
    using line by simp
  then have pre: "\<not> occurs_in PLACEHOLDER pre"
    and "\<not> occurs_in PLACEHOLDER (url @ q2 # post)"
    by (simp_all add: occurs_in_through [OF delimiter_not_in_marker(1) [OF d(1)]])
  then have post: "\<not> occurs_in PLACEHOLDER post"
    by (simp add: occurs_in_through [OF delimiter_not_in_marker(1) [OF d(2)]])
  have nm: "\<not> occurs_in PLACEHOLDER (url_prefix @ name)"
    using assms(5) n u by simp
  have "first_pass_text url_prefix (pre @ q1 # PLACEHOLDER @ ''/'' @ name @ q2 # post)"
    using pre d nm first_pass_text.plain [OF post] by (rule first_pass_text.reference)
  with run show ?thesis by simp
qed

lemma witness_text_facts:
  "\<not> 0 \<le> py_find ''x = '' PLACEHOLDER"
  "\<not> 0 \<le> py_find (''https://local/base/'' @ ''lib.js'') PLACEHOLDER"
  "\<not> 0 \<le> py_find [CHR 0x0A] PLACEHOLDER"
  "delimiter (CHR 0x22)"
  "CHR 0x0D \<notin> set ''https://local/base/''"
  by code_simp+

theorem replace_idempotent_witness:
  "first_pass_text ''https://local/base/''
     (univ_nl (''x = '' @ [CHR 0x22] @ ''__mystery://placeholder__/lib.js'' @ [CHR 0x22, CHR 0x0A]))
   \<and> CHR 0x0D \<notin> set ''https://local/base/''
   \<and> replace [Src ''folium/a.py''] ''https://local/base/''
     \<lparr>url_map = [],
      files = [Src ''folium/a.py'' \<mapsto>
        ''x = '' @ [CHR 0x22] @ ''__mystery://placeholder__/lib.js'' @ [CHR 0x22, CHR 0x0A]],
      events = []\<rparr>
   = (None,
      \<lparr>url_map = [],
       files = [Src ''folium/a.py'' \<mapsto>
         ''x = '' @ [CHR 0x22] @ ''https://local/base/lib.js'' @ [CHR 0x22, CHR 0x0A]],
       events = [Write (Src ''folium/a.py'')]\<rparr>)
   \<and> replace [Src ''folium/a.py''] ''https://local/base/''
     \<lparr>url_map = [],
      files = [Src ''folium/a.py'' \<mapsto>
         ''x = '' @ [CHR 0x22] @ ''https://local/base/lib.js'' @ [CHR 0x22, CHR 0x0A]],
      events = [Write (Src ''folium/a.py'')]\<rparr>
   = (None,
      \<lparr>url_map = [],
       files = [Src ''folium/a.py'' \<mapsto>
         ''x = '' @ [CHR 0x22] @ ''https://local/base/lib.js'' @ [CHR 0x22, CHR 0x0A]],
       events = [Write (Src ''folium/a.py'')]\<rparr>)"
proof -
  let ?pfx = "''https://local/base/''"
  let ?c0 = "''x = '' @ [CHR 0x22] @ ''__mystery://placeholder__/lib.js'' @ [CHR 0x22, CHR 0x0A]"
  let ?s0 = "\<lparr>url_map = [], files = [Src ''folium/a.py'' \<mapsto> ?c0], events = []\<rparr>"
  let ?s1 = "\<lparr>url_map = [],
       files = [Src ''folium/a.py'' \<mapsto>
         ''x = '' @ [CHR 0x22] @ ''https://local/base/lib.js'' @ [CHR 0x22, CHR 0x0A]],
       events = [Write (Src ''folium/a.py'')]\<rparr>"
  have shape: "univ_nl ?c0
      = ''x = '' @ CHR 0x22 # PLACEHOLDER @ ''/'' @ ''lib.js'' @ CHR 0x22 # [CHR 0x0A]"
    by (simp only: first_run_text) (simp add: PLACEHOLDER_def)
  have "first_pass_text ?pfx [CHR 0x0A]"
    by (rule first_pass_text.plain) (simp add: py_find_nonneg_iff [symmetric] witness_text_facts)
  then have "first_pass_text ?pfx
      (''x = '' @ CHR 0x22 # PLACEHOLDER @ ''/'' @ ''lib.js'' @ CHR 0x22 # [CHR 0x0A])"
    by (intro first_pass_text.reference)
      (simp_all only: py_find_nonneg_iff [symmetric] witness_text_facts not_False_eq_True)
  then have h1: "first_pass_text ?pfx (univ_nl ?c0)"
    by (simp only: shape)
  have h2: "CHR 0x0D \<notin> set ?pfx"
    by (rule witness_text_facts)
  have r1: "replace [Src ''folium/a.py''] ?pfx ?s0 = (None, ?s1)"
    by (simp add: replace_def replace_file_def first_run_text del: append.simps)
  have h: "\<forall>p \<in> set [Src ''folium/a.py'']. \<exists>c. files ?s0 p = Some c
               \<and> first_pass_text ?pfx (univ_nl c)"
    using h1 by simp
  from replace_idempotent [of "[Src ''folium/a.py'']" ?s0 ?pfx ?pfx] h h2
  have "replace [Src ''folium/a.py''] ?pfx (snd (replace [Src ''folium/a.py''] ?pfx ?s0))
          = (None, snd (replace [Src ''folium/a.py''] ?pfx ?s0))"
    by blast
  then have r2: "replace [Src ''folium/a.py''] ?pfx ?s1 = (None, ?s1)"
    by (simp only: r1 snd_conv)
  from h1 h2 r1 r2 show ?thesis
    by (intro conjI)
qed

text \<open>
  The text that \<open>replace\<close> writes for one reference: the prefix takes the place of the
  placeholder and its \<open>/\<close>, and nothing else changes.
\<close>

lemma py_replace_reference:
  assumes "\<not> occurs_in PLACEHOLDER a" and "delimiter c" and "delimiter d"
    and "\<not> occurs_in PLACEHOLDER (url_prefix @ name)" and "\<not> occurs_in PLACEHOLDER b"
  shows "py_replace (PLACEHOLDER @ ''/'') url_prefix (a @ c # PLACEHOLDER @ ''/'' @ name @ d # b)
           = a @ c # url_prefix @ name @ d # b"
proof -
  let ?M = "PLACEHOLDER @ ''/''"
  let ?R = "py_replace ?M url_prefix"
  have a: "?R a = a"
    using marker_nonempty assms(1) occurs_in_longer
    by (intro py_replace_absent) blast+
  have b: "?R b = b"
    using marker_nonempty assms(5) occurs_in_longer
    by (intro py_replace_absent) blast+
  have "\<not> occurs_in PLACEHOLDER name"
    using assms(4) occurs_in_right by blast
  then have n: "?R name = name"
    using marker_nonempty occurs_in_longer by (intro py_replace_absent) blast+
  have "?R (a @ c # (?M @ (name @ d # b))) = ?R a @ c # ?R (?M @ (name @ d # b))"
    using marker_nonempty delimiter_not_in_marker(2) [OF assms(2)]
    by (rule py_replace_through)
  also have "?R (?M @ (name @ d # b)) = url_prefix @ ?R (name @ d # b)"
    using marker_nonempty by (rule py_replace_match)
  also have "?R (name @ d # b) = ?R name @ d # ?R b"
    using marker_nonempty delimiter_not_in_marker(2) [OF assms(3)]
    by (rule py_replace_through)
  finally show ?thesis
    by (simp add: a b n)
qed

end
